theory Spec2Isabelle
  imports Main "HOL-Library.Word"
begin

section \<open>Tokens, source locations and faults\<close>

text \<open>
  The token kinds of \<^verbatim>\<open>swift/Parse/Tokens.def\<close> that \<^verbatim>\<open>lib/Parse/Parser.cpp\<close> names,
  the three operator kinds, a constructor \<open>kw\<close> for the keyword kinds and the
  sentinel \<open>NUM_TOKENS\<close> that the constructor of the parser installs
  (\<open>identifier\<close> is a keyword of Isabelle, hence \<open>tok_identifier\<close>).
\<close>

datatype tok =
    unknown | eof | code_complete | tok_identifier
  | oper_binary | oper_postfix | oper_prefix
  | integer_literal | string_literal | comment
  | l_paren | r_paren | l_brace | r_brace | l_square | r_square
  | comma | semi | kw string | NUM_TOKENS

text \<open>
  A \<^verbatim>\<open>SourceLoc\<close> wraps a pointer into a source buffer; it is modelled as the address,
  an integer, and the null pointer of a default-constructed \<^verbatim>\<open>SourceLoc\<close> is the
  address 0 (\<^verbatim>\<open>getAdvancedLoc(-1)\<close> steps back by one). The C++ type \<^verbatim>\<open>unsigned\<close> is
  a 32-bit word.
\<close>

type_synonym SourceLoc = int
type_synonym unsigned = "32 word"

definition isValid :: "SourceLoc \<Rightarrow> bool" where
  "isValid Loc = (Loc \<noteq> 0)"

text \<open>A token: its kind, its spelling (a slice of the buffer) and where the slice starts.\<close>

record Token =
  getKind :: tok
  getText :: string
  getLoc :: SourceLoc

text \<open>
  The ways the program can stop that are not a return: an \<^verbatim>\<open>assert\<close> that fails, a call
  through a null pointer, and \<^verbatim>\<open>back()\<close> on an empty vector.
\<close>

datatype fault = AssertionFailed string | NullDereference | EmptyVectorBack

text \<open>
  A computation that needs fuel returns \<open>None\<close> when the fuel runs out, \<open>Some (Inl f)\<close>
  when the program faults and \<open>Some (Inr x)\<close> when it returns \<open>x\<close>.
\<close>

definition bindF :: "(fault + 'a) option \<Rightarrow> ('a \<Rightarrow> (fault + 'b) option) \<Rightarrow> (fault + 'b) option" where
  "bindF m f = (case m of None \<Rightarrow> None | Some (Inl e) \<Rightarrow> Some (Inl e) | Some (Inr x) \<Rightarrow> f x)"

section \<open>The lexer, the source manager and the diagnostics, as the parser uses them\<close>

text \<open>
  Modelled from the spec: the class \<^verbatim>\<open>Lexer\<close> (swift/Parse/Lexer.h) is not part of the
  sources. Section 3 of the specification: "A dedicated eof kind terminates every
  tokenization run", and section 4.2: consuming "advances the tokenizer by one token".
  A lexer is the finite list of tokens it has still to produce, followed by the eof token
  of its range, which it produces from then on. The eof token carries the spelling found
  at the end of the range (a nested lexer over an interpolated segment ends on the
  character that closes the segment).
\<close>

record Lexer =
  pending :: "Token list"
  eofText :: string
  eofLoc :: SourceLoc

definition eofToken :: "Lexer \<Rightarrow> Token" where
  "eofToken Lx = \<lparr>getKind = eof, getText = eofText Lx, getLoc = eofLoc Lx\<rparr>"

definition lex :: "Lexer \<Rightarrow> Token \<times> Lexer" where
  "lex Lx = (case pending Lx of
               [] \<Rightarrow> (eofToken Lx, Lx)
             | t # ts \<Rightarrow> (t, Lx\<lparr>pending := ts\<rparr>))"

text \<open>A segment of a string literal, \<^verbatim>\<open>Lexer::StringSegment\<close>: its kind, start and length.\<close>

datatype SegmentKind = Literal | Expr

record StringSegment =
  segKind :: SegmentKind
  segLoc :: SourceLoc
  segLength :: unsigned

text \<open>
  What the functions of this file ask of the source manager and of the static functions
  of \<^verbatim>\<open>Lexer\<close>, none of which is part of the sources. They are parameters of the model:
  \<^item> \<open>Memory\<close>: the character at an address (a \<^verbatim>\<open>StringRef\<close> reads it);
  \<^item> \<open>getBufferSize\<close>: \<^verbatim>\<open>getMemoryBuffer(BufferID)->getBufferSize()\<close>, a \<^verbatim>\<open>size_t\<close>;
  \<^item> \<open>getLocOffsetInBuffer\<close> and \<open>FindBufferContainingLoc\<close> of \<^verbatim>\<open>SourceManager\<close>;
  \<^item> \<open>newLexer\<close>: the constructor of \<^verbatim>\<open>Lexer\<close> for a buffer, the flags \<^verbatim>\<open>InSILMode\<close> and
    \<^verbatim>\<open>KeepComments\<close>, and the range of offsets when one is given;
  \<^item> \<open>getStringLiteralSegments\<close>, \<open>getLocForEndOfToken\<close> and
    \<open>getStateForBeginningOfTokenLoc\<close> of \<^verbatim>\<open>Lexer\<close>.
\<close>

record SourceManager =
  Memory :: "int \<Rightarrow> char"
  getBufferSize :: "unsigned \<Rightarrow> nat"
  getLocOffsetInBuffer :: "SourceLoc \<Rightarrow> unsigned \<Rightarrow> unsigned"
  FindBufferContainingLoc :: "SourceLoc \<Rightarrow> int"
  newLexer :: "unsigned \<Rightarrow> bool \<Rightarrow> bool \<Rightarrow> (unsigned \<times> unsigned) option \<Rightarrow> Lexer"
  getStringLiteralSegments :: "Token \<Rightarrow> StringSegment list"
  getLocForEndOfToken :: "SourceLoc \<Rightarrow> SourceLoc"
  getStateForBeginningOfTokenLoc :: "Lexer \<Rightarrow> SourceLoc \<Rightarrow> Lexer"

text \<open>
  Modelled from the spec: the diagnostic engine is an external collaborator (section 6:
  "diagnose(location, diagnosticDescriptor, ...args) -> DiagnosticHandle, supporting
  chained fix-it attachment (insertTextAt, removeRange)"). A diagnostic is recorded with
  its location, its descriptor, its textual argument and the fix-its chained to it;
  \<open>caller_diag\<close> stands for the descriptors that callers pass in.
\<close>

datatype diag =
    unexpected_separator | expected_separator
  | opening_paren | opening_bracket | opening_brace
  | caller_diag nat

datatype FixIt = fixItRemove SourceLoc | fixItInsert SourceLoc string

record Diagnostic =
  diagLoc :: SourceLoc
  diagID :: diag
  diagArg :: string
  fixIts :: "FixIt list"

section \<open>The parser's cursor\<close>

text \<open>
  The fields of \<^verbatim>\<open>Parser\<close> that the functions below read and write. \<open>Diags\<close> is the
  list of diagnostics emitted so far, oldest first.
\<close>

record Parser =
  Tok :: Token
  L :: Lexer
  PreviousLoc :: SourceLoc
  Diags :: "Diagnostic list"
  SourceMgr :: SourceManager

definition diagnose :: "SourceLoc \<Rightarrow> diag \<Rightarrow> string \<Rightarrow> FixIt list \<Rightarrow> Parser \<Rightarrow> Parser" where
  "diagnose Loc D Arg Fix P =
     P\<lparr>Diags := Diags P @ [\<lparr>diagLoc = Loc, diagID = D, diagArg = Arg, fixIts = Fix\<rparr>]\<rparr>"

text \<open>\<^verbatim>\<open>Parser::consumeToken()\<close>, lines 253-259.\<close>

definition consumeToken :: "Parser \<Rightarrow> fault + (SourceLoc \<times> Parser)" where
  "consumeToken P =
     (let Loc = getLoc (Tok P) in
      if getKind (Tok P) = eof then Inl (AssertionFailed ''Lexing past eof!'')
      else (case lex (L P) of
              (t, Lx) \<Rightarrow> Inr (Loc, P\<lparr>Tok := t, L := Lx, PreviousLoc := Loc\<rparr>)))"

text \<open>
  Modelled from the spec: \<^verbatim>\<open>consumeToken(tok K)\<close> and \<^verbatim>\<open>consumeIf(tok K)\<close> are declared in
  swift/Parse/Parser.h, which is not part of the sources. Section 4.2: "consumeIf(kind):
  consumes only if currentToken.kind == kind; returns whether it did". The first consumes
  a token whose kind the caller has checked.
\<close>

definition consumeTokenK :: "tok \<Rightarrow> Parser \<Rightarrow> fault + (SourceLoc \<times> Parser)" where
  "consumeTokenK K P =
     (if getKind (Tok P) \<noteq> K then Inl (AssertionFailed ''Consuming wrong token kind'')
      else consumeToken P)"

definition consumeIf :: "tok \<Rightarrow> Parser \<Rightarrow> fault + (bool \<times> Parser)" where
  "consumeIf K P =
     (if getKind (Tok P) \<noteq> K then Inr (False, P)
      else (case consumeTokenK K P of
              Inl e \<Rightarrow> Inl e
            | Inr (Loc, P') \<Rightarrow> Inr (True, P')))"

text \<open>
  The tokens from the cursor to the end of input: the current token, unless it is eof,
  and the tokens the lexer has still to produce. \<open>remaining\<close> is their number.
\<close>

definition upcoming :: "Parser \<Rightarrow> Token list" where
  "upcoming P = (if getKind (Tok P) = eof then [] else Tok P # pending (L P))"

definition remaining :: "Parser \<Rightarrow> nat" where
  "remaining P = length (upcoming P)"

section \<open>The recovery engine\<close>

text \<open>
  \<^verbatim>\<open>Parser::skipSingle\<close> (lines 289-314) and \<^verbatim>\<open>Parser::skipUntil\<close> (lines 316-323) call
  each other. The first argument is fuel: every pass through the body of the
  \<^verbatim>\<open>while\<close> loop of \<^verbatim>\<open>skipUntil\<close> uses one unit, and \<open>None\<close> means that the fuel ran
  out. In \<^verbatim>\<open>skipSingle\<close> the call \<^verbatim>\<open>skipUntil(tok::r_paren, StopAtCodeComplete)\<close> goes
  through an overload of Parser.h.

  Modelled from the spec: that overload is not part of the sources. Section 4.3: the
  pair of targets "lets callers pass an optional second target uniformly", the absent
  second target being \<open>unknown\<close>; so the call is
  \<^verbatim>\<open>skipUntil(tok::r_paren, tok::unknown, StopAtCodeComplete)\<close>.
\<close>

fun skipSingle :: "nat \<Rightarrow> bool \<Rightarrow> Parser \<Rightarrow> (fault + Parser) option"
  and skipUntil :: "nat \<Rightarrow> tok \<Rightarrow> tok \<Rightarrow> bool \<Rightarrow> Parser \<Rightarrow> (fault + Parser) option"
where
  "skipSingle n StopAtCodeComplete P =
     (case getKind (Tok P) of
        l_paren \<Rightarrow>
          bindF (Some (consumeToken P)) (\<lambda>(Loc, P1).
          bindF (skipUntil n r_paren unknown StopAtCodeComplete P1) (\<lambda>P2.
          bindF (Some (consumeIf r_paren P2)) (\<lambda>(b, P3). Some (Inr P3))))
      | l_brace \<Rightarrow>
          bindF (Some (consumeToken P)) (\<lambda>(Loc, P1).
          bindF (skipUntil n r_brace unknown StopAtCodeComplete P1) (\<lambda>P2.
          bindF (Some (consumeIf r_brace P2)) (\<lambda>(b, P3). Some (Inr P3))))
      | l_square \<Rightarrow>
          bindF (Some (consumeToken P)) (\<lambda>(Loc, P1).
          bindF (skipUntil n r_square unknown StopAtCodeComplete P1) (\<lambda>P2.
          bindF (Some (consumeIf r_square P2)) (\<lambda>(b, P3). Some (Inr P3))))
      | code_complete \<Rightarrow>
          (if \<not> StopAtCodeComplete
           then bindF (Some (consumeToken P)) (\<lambda>(Loc, P1). Some (Inr P1))
           else Some (Inr P))
      | _ \<Rightarrow> bindF (Some (consumeToken P)) (\<lambda>(Loc, P1). Some (Inr P1)))"
| "skipUntil n T1 T2 StopAtCodeComplete P =
     (if T1 = unknown \<and> T2 = unknown then Some (Inr P)
      else if getKind (Tok P) \<noteq> eof \<and> getKind (Tok P) \<noteq> T1 \<and> getKind (Tok P) \<noteq> T2 \<and>
              (\<not> StopAtCodeComplete \<or> getKind (Tok P) \<noteq> code_complete)
      then (case n of
              0 \<Rightarrow> None
            | Suc m \<Rightarrow>
                bindF (skipSingle m StopAtCodeComplete P) (\<lambda>P'.
                skipUntil m T1 T2 StopAtCodeComplete P'))
      else Some (Inr P))"

text \<open>
  The vocabulary of the bracket-balance property: the three openers, the closer of each,
  and the place that an explicit stack of expected closers reaches. \<open>skipToClose S st ts\<close>
  reads the tokens \<open>ts\<close> with the closers \<open>st\<close> still expected, the innermost first: it
  pushes the closer of each opener, pops on the innermost expected closer and passes
  every other token. It ends with \<open>Closed r\<close> when the stack is empty (nesting is back at
  zero and \<open>r\<close> are the tokens left), with \<open>AtMarker r\<close> when \<open>S\<close> asks to stop at a
  code-completion marker and \<open>r\<close> starts with one, and with \<open>AtEof\<close> when the input ends first.
\<close>

definition isOpener :: "tok \<Rightarrow> bool" where
  "isOpener k = (k = l_paren \<or> k = l_brace \<or> k = l_square)"

fun closerOf :: "tok \<Rightarrow> tok" where
  "closerOf l_paren = r_paren"
| "closerOf l_brace = r_brace"
| "closerOf l_square = r_square"
| "closerOf k = k"

datatype skipStop = Closed "Token list" | AtMarker "Token list" | AtEof

fun skipToClose :: "bool \<Rightarrow> tok list \<Rightarrow> Token list \<Rightarrow> skipStop" where
  "skipToClose S [] ts = Closed ts"
| "skipToClose S (c # st) [] = AtEof"
| "skipToClose S (c # st) (t # ts) =
     (if S \<and> getKind t = code_complete then AtMarker (t # ts)
      else if isOpener (getKind t) then skipToClose S (closerOf (getKind t) # c # st) ts
      else if getKind t = c then skipToClose S st ts
      else skipToClose S (c # st) ts)"

fun leftOver :: "skipStop \<Rightarrow> Token list" where
  "leftOver (Closed r) = r"
| "leftOver (AtMarker r) = r"
| "leftOver AtEof = []"

text \<open>A stream of tokens as the lexer hands them out before eof, none of kind \<open>unknown\<close>.\<close>

definition plainTokens :: "Token list \<Rightarrow> bool" where
  "plainTokens ts = list_all (\<lambda>t. getKind t \<noteq> eof \<and> getKind t \<noteq> unknown) ts"

section \<open>The list parser\<close>

text \<open>
  \<^verbatim>\<open>Parser::parseToken\<close> (lines 388-396) and \<^verbatim>\<open>Parser::parseMatchingToken\<close> (lines
  401-416). The reference parameter \<^verbatim>\<open>TokLoc\<close> is an output: the functions return
  \<open>Some\<close> of the location they assign to it and \<open>None\<close> when they leave it alone. The
  \<^verbatim>\<open>default\<close> branch of the \<^verbatim>\<open>switch\<close> is the assertion \<^verbatim>\<open>assert(!"unknown matching token!")\<close>.
\<close>

definition parseToken :: "tok \<Rightarrow> diag \<Rightarrow> Parser \<Rightarrow> fault + (bool \<times> SourceLoc option \<times> Parser)" where
  "parseToken K D P =
     (if getKind (Tok P) = K
      then (case consumeTokenK K P of
              Inl e \<Rightarrow> Inl e
            | Inr (TokLoc, P') \<Rightarrow> Inr (False, Some TokLoc, P'))
      else Inr (True, None, diagnose (getLoc (Tok P)) D [] [] P))"

definition parseMatchingToken ::
  "tok \<Rightarrow> diag \<Rightarrow> SourceLoc \<Rightarrow> Parser \<Rightarrow> fault + (bool \<times> SourceLoc option \<times> Parser)" where
  "parseMatchingToken K ErrorDiag OtherLoc P =
     (case (case K of
              r_paren \<Rightarrow> Some opening_paren
            | r_square \<Rightarrow> Some opening_bracket
            | r_brace \<Rightarrow> Some opening_brace
            | _ \<Rightarrow> None) of
        None \<Rightarrow> Inl (AssertionFailed ''unknown matching token!'')
      | Some OtherNote \<Rightarrow>
          (case parseToken K ErrorDiag P of
             Inl e \<Rightarrow> Inl e
           | Inr (r, TokLoc, P') \<Rightarrow>
               if r then Inr (True, TokLoc, diagnose OtherLoc OtherNote [] [] P')
               else Inr (False, TokLoc, P')))"

text \<open>
  \<^verbatim>\<open>Parser::parseList\<close>, lines 419-470. The element callback is a function on the state
  of the parser that returns its flag. The inner loop over stray separators (lines
  431-436) is \<open>leadingSeparators\<close>; it stops because every pass consumes a token.
\<close>

definition separatorText :: "tok \<Rightarrow> string" where
  "separatorText SeparatorK = (if SeparatorK = comma then '','' else '';'')"

function leadingSeparators :: "tok \<Rightarrow> Parser \<Rightarrow> fault + Parser" where
  "leadingSeparators SeparatorK P =
     (if getKind (Tok P) = SeparatorK
      then (case consumeToken
                   (diagnose (getLoc (Tok P)) unexpected_separator (separatorText SeparatorK)
                      [fixItRemove (getLoc (Tok P))] P) of
              Inl e \<Rightarrow> Inl e
            | Inr (Loc, P') \<Rightarrow> leadingSeparators SeparatorK P')
      else Inr P)"
  by pat_completeness auto
termination
  by (relation "measure (\<lambda>(K, P). remaining P)")
     (auto simp: consumeToken_def diagnose_def remaining_def upcoming_def lex_def eofToken_def
           Let_def split: if_splits list.splits)

text \<open>
  One pass through the body of the \<^verbatim>\<open>while (true)\<close> loop (lines 431-465) ends in one of
  three ways: the loop goes round again, \<^verbatim>\<open>break\<close> leaves it for the closing delimiter,
  or \<^verbatim>\<open>return\<close> leaves the function with a result and, at line 445, a value for
  \<^verbatim>\<open>RightLoc\<close>. Each carries the flag \<^verbatim>\<open>Invalid\<close> and the state of the parser.

  The call \<^verbatim>\<open>skipUntil(RightK, SeparatorK)\<close> of line 459 leaves the third argument to its
  default, which Parser.h declares and the sources do not show: it is the parameter
  \<open>StopDefault\<close> of the model. The fuel \<open>n\<close> is that of \<^verbatim>\<open>skipUntil\<close>.
\<close>

datatype listStep =
    Continue bool Parser
  | Break bool Parser
  | Return bool "SourceLoc option" Parser

definition parseList_body ::
  "nat \<Rightarrow> bool \<Rightarrow> tok \<Rightarrow> tok \<Rightarrow> bool \<Rightarrow> (Parser \<Rightarrow> bool \<times> Parser) \<Rightarrow> bool \<Rightarrow> Parser
     \<Rightarrow> (fault + listStep) option" where
  "parseList_body n StopDefault RightK SeparatorK OptionalSep callback Invalid P =
     bindF (Some (leadingSeparators SeparatorK P)) (\<lambda>P0.
       let StartLoc = getLoc (Tok P0);
           (r, P1) = callback P0;
           Invalid1 = (Invalid \<or> r)
       in
       if getKind (Tok P1) = RightK then Some (Inr (Break Invalid1 P1))
       else if getKind (Tok P1) = eof \<and> getText (Tok P1) = '')''
       then Some (Inr (Return Invalid1 (Some (getLoc (Tok P1))) P1))
       else
         bindF (Some (consumeIf SeparatorK P1)) (\<lambda>(consumed, P2).
           if consumed then Some (Inr (Continue Invalid1 P2))
           else
             let InsertLoc = getLocForEndOfToken (SourceMgr P2) (PreviousLoc P2);
                 Separator = separatorText SeparatorK;
                 (Invalid2, P3) =
                   (if \<not> OptionalSep
                    then (True, diagnose (getLoc (Tok P2)) expected_separator Separator
                                  [fixItInsert InsertLoc Separator] P2)
                    else (Invalid1, P2))
             in
             if getLoc (Tok P3) = StartLoc
             then
               bindF (skipUntil n RightK SeparatorK StopDefault P3) (\<lambda>P4.
                 if getKind (Tok P4) = RightK then Some (Inr (Break Invalid2 P4))
                 else if getKind (Tok P4) = eof \<or> getKind (Tok P4) = code_complete
                 then Some (Inr (Return True None P4))
                 else bindF (Some (consumeIf SeparatorK P4)) (\<lambda>(c, P5).
                        Some (Inr (Continue Invalid2 P5))))
             else Some (Inr (Continue Invalid2 P3))))"

text \<open>
  The loop: every pass uses one unit of the fuel \<open>n\<close>, and \<open>None\<close> means that the fuel
  ran out before the loop was left.
\<close>

fun parseList_loop ::
  "nat \<Rightarrow> bool \<Rightarrow> tok \<Rightarrow> tok \<Rightarrow> bool \<Rightarrow> (Parser \<Rightarrow> bool \<times> Parser) \<Rightarrow> bool \<Rightarrow> Parser
     \<Rightarrow> (fault + listStep) option" where
  "parseList_loop 0 StopDefault RightK SeparatorK OptionalSep callback Invalid P = None"
| "parseList_loop (Suc n) StopDefault RightK SeparatorK OptionalSep callback Invalid P =
     bindF (parseList_body n StopDefault RightK SeparatorK OptionalSep callback Invalid P)
       (\<lambda>step. case step of
          Continue Invalid' P' \<Rightarrow>
            parseList_loop n StopDefault RightK SeparatorK OptionalSep callback Invalid' P'
        | Break Invalid' P' \<Rightarrow> Some (Inr (Break Invalid' P'))
        | Return r RightLoc P' \<Rightarrow> Some (Inr (Return r RightLoc P')))"

definition parseList ::
  "nat \<Rightarrow> bool \<Rightarrow> tok \<Rightarrow> SourceLoc \<Rightarrow> tok \<Rightarrow> bool \<Rightarrow> diag \<Rightarrow> (Parser \<Rightarrow> bool \<times> Parser) \<Rightarrow> Parser
     \<Rightarrow> (fault + (bool \<times> SourceLoc option \<times> Parser)) option" where
  "parseList n StopDefault RightK LeftLoc SeparatorK OptionalSep ErrorDiag callback P =
     (if \<not> (SeparatorK = comma \<or> SeparatorK = semi)
      then Some (Inl (AssertionFailed ''SeparatorK == tok::comma || SeparatorK == tok::semi''))
      else if getKind (Tok P) = RightK
      then (case consumeTokenK RightK P of
              Inl e \<Rightarrow> Some (Inl e)
            | Inr (RightLoc, P') \<Rightarrow> Some (Inr (False, Some RightLoc, P')))
      else
        bindF (parseList_loop n StopDefault RightK SeparatorK OptionalSep callback False P)
          (\<lambda>step. case step of
             Return r RightLoc P' \<Rightarrow> Some (Inr (r, RightLoc, P'))
           | Break Invalid P' \<Rightarrow>
               (case parseMatchingToken RightK ErrorDiag LeftLoc P' of
                  Inl e \<Rightarrow> Some (Inl e)
                | Inr (r, RightLoc, P'') \<Rightarrow> Some (Inr (Invalid \<or> r, RightLoc, P'')))
           | Continue Invalid P' \<Rightarrow> None))"

text \<open>
  The loop after \<open>k\<close> passes that went round: the flag \<^verbatim>\<open>Invalid\<close> and the state with
  which the next pass starts, for a loop started with fuel \<open>n\<close>. It is \<open>None\<close> when one of
  the \<open>k\<close> passes left the loop, stopped on a fault or found no fuel.
\<close>

fun parseList_after ::
  "nat \<Rightarrow> nat \<Rightarrow> bool \<Rightarrow> tok \<Rightarrow> tok \<Rightarrow> bool \<Rightarrow> (Parser \<Rightarrow> bool \<times> Parser) \<Rightarrow> bool \<Rightarrow> Parser
     \<Rightarrow> (bool \<times> Parser) option" where
  "parseList_after 0 n StopDefault RightK SeparatorK OptionalSep callback Invalid P =
     Some (Invalid, P)"
| "parseList_after (Suc k) 0 StopDefault RightK SeparatorK OptionalSep callback Invalid P = None"
| "parseList_after (Suc k) (Suc n) StopDefault RightK SeparatorK OptionalSep callback Invalid P =
     (case parseList_body n StopDefault RightK SeparatorK OptionalSep callback Invalid P of
        Some (Inr (Continue Invalid' P')) \<Rightarrow>
          parseList_after k n StopDefault RightK SeparatorK OptionalSep callback Invalid' P'
      | _ \<Rightarrow> None)"


text \<open>
  An element callback that only reads tokens leaves the cursor where it was or further
  on: fewer tokens remain after it, or as many and the current token starts where it did.
\<close>

definition consuming :: "(Parser \<Rightarrow> bool \<times> Parser) \<Rightarrow> bool" where
  "consuming callback =
     (\<forall>P. remaining (snd (callback P)) < remaining P \<or>
          (remaining (snd (callback P)) = remaining P \<and>
           getLoc (Tok (snd (callback P))) = getLoc (Tok P)))"

text \<open>
  The condition of the \<^verbatim>\<open>while\<close> loop of \<^verbatim>\<open>skipUntil\<close>, and what holds of the state
  \<open>P'\<close> it returns from \<open>P\<close>: the sentinel pair leaves the state alone, any other pair
  ends on a token that stops the loop.
\<close>

definition skipCond :: "tok \<Rightarrow> tok \<Rightarrow> bool \<Rightarrow> Parser \<Rightarrow> bool" where
  "skipCond T1 T2 S P = (getKind (Tok P) \<noteq> eof \<and> getKind (Tok P) \<noteq> T1 \<and> getKind (Tok P) \<noteq> T2 \<and>
              (\<not> S \<or> getKind (Tok P) \<noteq> code_complete))"

definition skipPost :: "tok \<Rightarrow> tok \<Rightarrow> bool \<Rightarrow> Parser \<Rightarrow> Parser \<Rightarrow> bool" where
  "skipPost T1 T2 S P P' =
     (if T1 = unknown \<and> T2 = unknown then P' = P
      else getKind (Tok P') = eof \<or> getKind (Tok P') = T1 \<or> getKind (Tok P') = T2 \<or>
           (S \<and> getKind (Tok P') = code_complete))"


text \<open>
  Where the explicit stack stands once the loop of \<^verbatim>\<open>skipUntil\<close> for the innermost closer
  has stopped in front of the tokens \<open>ts\<close>, the closers \<open>st\<close> being those around it.
\<close>

definition afterStop :: "bool \<Rightarrow> tok list \<Rightarrow> Token list \<Rightarrow> skipStop" where
  "afterStop S st ts =
     (case ts of
        [] \<Rightarrow> AtEof
      | t # r \<Rightarrow> if S \<and> getKind t = code_complete then AtMarker (t # r)
                 else skipToClose S st r)"

definition isCloser :: "tok \<Rightarrow> bool" where
  "isCloser c = (c = r_paren \<or> c = r_brace \<or> c = r_square)"

section \<open>The tokenizer entry point and the string-segment splitter\<close>

text \<open>
  \<^verbatim>\<open>StringRef Text(Loc.Value.getPointer(), Len)\<close> is the \<open>Len\<close> characters of memory from
  the address \<open>Loc\<close> on; \<^verbatim>\<open>setToken\<close> makes a token of a kind and such a text, which
  starts where the text does.
\<close>

definition StringRef :: "SourceManager \<Rightarrow> SourceLoc \<Rightarrow> unsigned \<Rightarrow> string" where
  "StringRef SM Ptr Len = map (\<lambda>k. Memory SM (Ptr + int k)) [0..<unat Len]"

definition setToken :: "tok \<Rightarrow> SourceLoc \<Rightarrow> string \<Rightarrow> Token" where
  "setToken K Ptr Text = \<lparr>getKind = K, getText = Text, getLoc = Ptr\<rparr>"

text \<open>A \<^verbatim>\<open>for\<close> loop over the indices \<open>is\<close> whose body may fault or run out of fuel.\<close>

fun foldF :: "('i \<Rightarrow> 'a \<Rightarrow> (fault + 'a) option) \<Rightarrow> 'i list \<Rightarrow> 'a \<Rightarrow> (fault + 'a) option" where
  "foldF f [] a = Some (Inr a)"
| "foldF f (i # is) a = bindF (f i a) (foldF f is)"

text \<open>
  The body of the \<^verbatim>\<open>for\<close> loop of \<^verbatim>\<open>getStringPartTokens\<close> (lines 156-183) for the
  segment \<open>i\<close> of \<open>e\<close>. Its first argument stands for the call of line 179,
  \<^verbatim>\<open>swift::tokenize(SM, BufID, Offset, EndOffset, /*KeepComments=*/true)\<close>, which the
  definition of \<^verbatim>\<open>getStringPartTokens\<close> below puts in.
\<close>

definition stringPart ::
  "(unsigned \<Rightarrow> unsigned \<Rightarrow> (fault + Token list) option) \<Rightarrow> SourceManager \<Rightarrow> unsigned
     \<Rightarrow> StringSegment list \<Rightarrow> nat \<Rightarrow> nat \<Rightarrow> Token list \<Rightarrow> (fault + Token list) option" where
  "stringPart retokenize SM BufID Segments e i Toks =
     (let Seg = Segments ! i;
          isFirst = (i = 0);
          isLast = (i = e - 1)
      in if segKind Seg = Literal
         then
           let Loc = (if isFirst then segLoc Seg - 1 else segLoc Seg);
               Len = (if isFirst then segLength Seg + 1 else segLength Seg);
               Len' = (if isLast then Len + 1 else Len)
           in Some (Inr (Toks @ [setToken string_literal Loc (StringRef SM Loc Len')]))
         else
           let Offset = getLocOffsetInBuffer SM (segLoc Seg) BufID;
               EndOffset = Offset + segLength Seg
           in bindF (retokenize Offset EndOffset)
                (\<lambda>NewTokens. Some (Inr (Toks @ NewTokens))))"

text \<open>
  \<^verbatim>\<open>swift::tokenize\<close> (lines 187-208), its \<^verbatim>\<open>do ... while\<close> loop, and
  \<^verbatim>\<open>getStringPartTokens\<close> (lines 150-185), which calls \<^verbatim>\<open>tokenize\<close> again on every
  interpolated segment. The first argument is fuel: a call of \<^verbatim>\<open>tokenize\<close> and a pass
  through its loop use one unit each, and \<open>None\<close> means that the fuel ran out. The vector
  \<^verbatim>\<open>Tokens\<close> is a list with its back at the end; the parameter \<^verbatim>\<open>Tok\<close> of
  \<^verbatim>\<open>getStringPartTokens\<close> is \<open>StrTok\<close> here, the name its caller gives it. \<^verbatim>\<open>Tokens.back()\<close> on an empty vector is
  a fault. Buffer identifiers are \<^verbatim>\<open>unsigned\<close> (\<^verbatim>\<open>getStringPartTokens\<close> takes an \<^verbatim>\<open>int\<close>
  and hands the same bits on).

  The recursive call of line 179 leaves \<^verbatim>\<open>TokenizeInterpolatedString\<close> to its default,
  which swift/Subsystems.h declares and the sources do not show: it is the parameter
  \<open>SplitDefault\<close> of the model.
\<close>

function (sequential) tokenize ::
    "nat \<Rightarrow> bool \<Rightarrow> SourceManager \<Rightarrow> unsigned \<Rightarrow> unsigned \<Rightarrow> unsigned \<Rightarrow> bool \<Rightarrow> bool
       \<Rightarrow> (fault + Token list) option"
  and tokenize_loop ::
    "nat \<Rightarrow> bool \<Rightarrow> SourceManager \<Rightarrow> unsigned \<Rightarrow> bool \<Rightarrow> Lexer \<Rightarrow> Token list
       \<Rightarrow> (fault + Token list) option"
  and getStringPartTokens ::
    "nat \<Rightarrow> bool \<Rightarrow> Token \<Rightarrow> SourceManager \<Rightarrow> unsigned \<Rightarrow> Token list
       \<Rightarrow> (fault + Token list) option"
where
  "tokenize 0 SplitDefault SM BufferID Offset EndOffset KeepComments
      TokenizeInterpolatedString = None"
| "tokenize (Suc n) SplitDefault SM BufferID Offset EndOffset KeepComments
      TokenizeInterpolatedString =
     (let EndOffset' = (if Offset = 0 \<and> EndOffset = 0
                        then of_nat (getBufferSize SM BufferID) else EndOffset);
          Lx = newLexer SM BufferID False KeepComments (Some (Offset, EndOffset'))
      in bindF (tokenize_loop n SplitDefault SM BufferID TokenizeInterpolatedString Lx [])
           (\<lambda>Tokens. Some (Inr (butlast Tokens))))"
| "tokenize_loop 0 SplitDefault SM BufferID TokenizeInterpolatedString Lx Tokens = None"
| "tokenize_loop (Suc n) SplitDefault SM BufferID TokenizeInterpolatedString Lx Tokens =
     (case lex Lx of
        (t, Lx') \<Rightarrow>
          bindF (if getKind t = string_literal \<and> TokenizeInterpolatedString
                 then getStringPartTokens n SplitDefault t SM BufferID Tokens
                 else Some (Inr (Tokens @ [t])))
            (\<lambda>Tokens'.
               if Tokens' = [] then Some (Inl EmptyVectorBack)
               else if getKind (last Tokens') \<noteq> eof
               then tokenize_loop n SplitDefault SM BufferID TokenizeInterpolatedString Lx' Tokens'
               else Some (Inr Tokens')))"
| "getStringPartTokens n SplitDefault StrTok SM BufID Toks =
     (if getKind StrTok \<noteq> string_literal
      then Some (Inl (AssertionFailed ''Tok.is(tok::string_literal)''))
      else
        let Segments = getStringLiteralSegments SM StrTok;
            e = length Segments
        in foldF (stringPart
                    (\<lambda>Offset EndOffset.
                       tokenize n SplitDefault SM BufID Offset EndOffset True SplitDefault)
                    SM BufID Segments e)
             [0..<e] Toks)"
  by pat_completeness auto
termination
  by (relation "measure (\<lambda>x. case x of
          Inl (n, _) \<Rightarrow> 3 * n + 1
        | Inr (Inl (n, _)) \<Rightarrow> 3 * n + 3
        | Inr (Inr (n, _)) \<Rightarrow> 3 * n + 2)") auto

text \<open>
  The token that the specification describes for the literal segment \<open>i\<close> of a string
  literal (section 4.6): a string-literal token over the range of the segment, with the
  start moved back by one and the length up by one when the segment is the first, and
  the length up by one when it is the last.
\<close>

definition literalSegmentToken :: "SourceManager \<Rightarrow> StringSegment list \<Rightarrow> nat \<Rightarrow> Token" where
  "literalSegmentToken SM Segments i =
     (let start = segLoc (Segments ! i) - (if i = 0 then 1 else 0);
          len = segLength (Segments ! i) + (if i = 0 then 1 else 0) +
                (if Suc i = length Segments then 1 else 0)
      in \<lparr>getKind = string_literal, getText = StringRef SM start len, getLoc = start\<rparr>)"

definition noEof :: "Token list \<Rightarrow> bool" where
  "noEof ts = list_all (\<lambda>t. getKind t \<noteq> eof) ts"

section \<open>The persistent parser state and the construction of a parser\<close>

text \<open>
  Modelled from the spec: \<^verbatim>\<open>PersistentParserState\<close> and its \<^verbatim>\<open>ParserPos\<close> are declared in
  swift/Parse/PersistentParserState.h, which is not part of the sources. Section 3 of the
  specification: the state "holds at most one saved Cursor Position (for resuming
  top-level parsing across instances) and a queue of delayed parse obligations", and "it
  must never hold two saved positions simultaneously - taking a position clears it". A
  saved position is the location of a token and the location before it; the position
  with the null location is the one that is not valid, and it is what a fresh state and
  a state whose position has been taken hold. Of the delayed obligations the functions
  of this file read only the location of the delayed top-level declaration, if any.
\<close>

record ParserPos =
  posLoc :: SourceLoc
  posPrevLoc :: SourceLoc

definition noParserPos :: ParserPos where
  "noParserPos = \<lparr>posLoc = 0, posPrevLoc = 0\<rparr>"

definition posIsValid :: "ParserPos \<Rightarrow> bool" where
  "posIsValid Pos = isValid (posLoc Pos)"

record PersistentParserState =
  MarkedPos :: ParserPos
  DelayedDeclLoc :: "SourceLoc option"

definition newPersistentParserState :: PersistentParserState where
  "newPersistentParserState = \<lparr>MarkedPos = noParserPos, DelayedDeclLoc = None\<rparr>"

definition takeParserPosition :: "PersistentParserState \<Rightarrow> ParserPos \<times> PersistentParserState" where
  "takeParserPosition State = (MarkedPos State, State\<lparr>MarkedPos := noParserPos\<rparr>)"

text \<open>
  Modelled from the spec: \<^verbatim>\<open>getParserPosition\<close> and \<^verbatim>\<open>restoreParserPosition\<close> are declared
  in swift/Parse/Parser.h, which is not part of the sources. Section 3: a checkpoint is
  the "token at time of capture" and the "offset the tokenizer must resume from";
  section 4.2: restoring rewinds the cursor, and a saved checkpoint "seeds the initial
  position". The position of a parser is the state of the lexer at the beginning of the
  saved token together with the saved previous location; restoring it lets the lexer
  produce that token again as the current one.
\<close>

definition getParserPosition :: "ParserPos \<Rightarrow> Parser \<Rightarrow> Lexer \<times> SourceLoc" where
  "getParserPosition Pos P =
     (getStateForBeginningOfTokenLoc (SourceMgr P) (L P) (posLoc Pos), posPrevLoc Pos)"

definition restoreParserPosition :: "Lexer \<times> SourceLoc \<Rightarrow> Parser \<Rightarrow> Parser" where
  "restoreParserPosition PP P =
     (case lex (fst PP) of (t, Lx) \<Rightarrow> P\<lparr>Tok := t, L := Lx, PreviousLoc := snd PP\<rparr>)"

text \<open>
  The constructor \<^verbatim>\<open>Parser::Parser\<close>, lines 214-242. It takes the source manager and the
  diagnostics of the translation unit, the buffer, whether a SIL parser state is given,
  and the persistent state or no state (a null pointer). It returns the parser and the
  persistent state that the parser points to, as the constructor leaves it. \<open>unprimed\<close> is
  the parser before the saved position is looked at: its token has the sentinel kind
  \<open>NUM_TOKENS\<close> and its lexer is new.
\<close>

definition unprimed :: "SourceManager \<Rightarrow> Diagnostic list \<Rightarrow> unsigned \<Rightarrow> bool \<Rightarrow> Parser" where
  "unprimed SM Ds BufferID SIL =
     \<lparr>Tok = \<lparr>getKind = NUM_TOKENS, getText = [], getLoc = 0\<rparr>,
      L = newLexer SM BufferID SIL False None,
      PreviousLoc = 0,
      Diags = Ds,
      SourceMgr = SM\<rparr>"

definition newParser ::
  "SourceManager \<Rightarrow> Diagnostic list \<Rightarrow> unsigned \<Rightarrow> bool \<Rightarrow> PersistentParserState option
     \<Rightarrow> Parser \<times> PersistentParserState" where
  "newParser SM Ds BufferID SIL PersistentState =
     (let State = (case PersistentState of
                     None \<Rightarrow> newPersistentParserState
                   | Some S \<Rightarrow> S);
          P = unprimed SM Ds BufferID SIL;
          (Pos, State') = takeParserPosition State
      in if posIsValid Pos \<and> FindBufferContainingLoc SM (posLoc Pos) = sint BufferID
         then (restoreParserPosition (getParserPosition Pos P) P, State')
         else (P, State'))"

section \<open>Delayed parsing\<close>

text \<open>
  What the delayed-parsing pass does to its surroundings is a trace of events: a
  code-completion callback object is created by the factory and installed in a parser, a
  parser runs a delayed production, and a callback object is told that parsing is done.
  Callback objects are numbered in the order of their creation. The productions
  \<^verbatim>\<open>parseDeclFuncBodyDelayed\<close> and \<^verbatim>\<open>parseTopLevelCodeDeclDelayed\<close> are external; they return
  nothing, so the code has no branch on their outcome.
\<close>

datatype event =
    createCodeCompletionCallbacks nat
  | setCodeCompletionCallbacks nat
  | parseDeclFuncBodyDelayed SourceLoc
  | parseTopLevelCodeDeclDelayed
  | doneParsing nat

record Session =
  Trace :: "event list"
  Created :: nat
  ParserState :: PersistentParserState

text \<open>
  A declaration, as the walker of \<^verbatim>\<open>ParseDelayedFunctionBodies\<close> sees it: a function
  declaration has a location and a body, which is absent (\<^verbatim>\<open>getBody()\<close> is null) or of a
  kind; every declaration has the declarations nested in it.
\<close>

datatype BodyKind = Unparsed | Parsed

datatype Decl =
    FuncDecl SourceLoc "BodyKind option" "Decl list"
  | OtherDecl "Decl list"

text \<open>
  \<^verbatim>\<open>ParseDelayedFunctionBodies::parseFunctionBody\<close>, lines 76-92. The factory is a pointer
  that may be null: \<open>True\<close> when there is a factory. \<^verbatim>\<open>CodeCompletion\<close> is the
  \<^verbatim>\<open>unique_ptr\<close> of line 84: \<open>None\<close> when it is null, the number of the callback object
  otherwise. The sub-parser is constructed on the shared persistent state.
\<close>

definition parseFunctionBody ::
  "SourceManager \<Rightarrow> Diagnostic list \<Rightarrow> bool \<Rightarrow> SourceLoc \<Rightarrow> BodyKind option \<Rightarrow> Session
     \<Rightarrow> fault + Session" where
  "parseFunctionBody SM Ds CodeCompletionFactory FDLoc FE W =
     (case FE of
        None \<Rightarrow> Inl (AssertionFailed ''FE'')
      | Some Kind \<Rightarrow>
          if Kind \<noteq> Unparsed
          then Inl (AssertionFailed ''FE->getBodyKind() == FuncExpr::BodyKind::Unparsed'')
          else
            let BufferID = FindBufferContainingLoc SM FDLoc;
                (TheParser, State') =
                   newParser SM Ds (word_of_int BufferID) False (Some (ParserState W));
                W1 = W\<lparr>ParserState := State'\<rparr>;
                (CodeCompletion, W2) =
                   (if CodeCompletionFactory
                    then (Some (Created W1),
                          W1\<lparr>Trace := Trace W1 @ [createCodeCompletionCallbacks (Created W1),
                                                   setCodeCompletionCallbacks (Created W1)],
                             Created := Suc (Created W1)\<rparr>)
                    else (None, W1));
                W3 = W2\<lparr>Trace := Trace W2 @ [parseDeclFuncBodyDelayed FDLoc]\<rparr>
            in case CodeCompletion of
                 None \<Rightarrow> Inl NullDereference
               | Some c \<Rightarrow> Inr (W3\<lparr>Trace := Trace W3 @ [doneParsing c]\<rparr>))"

text \<open>
  \<^verbatim>\<open>walkToDeclPre\<close>, lines 63-73: the flag it returns says whether the walker descends.

  Modelled from the spec: \<^verbatim>\<open>Decl::walk\<close> belongs to the AST walker, which is not part of
  the sources. Section 6: the walker "visits each recursively, able to signal do not
  descend further for a given node".
\<close>

definition walkToDeclPre ::
  "SourceManager \<Rightarrow> Diagnostic list \<Rightarrow> bool \<Rightarrow> Decl \<Rightarrow> Session \<Rightarrow> fault + (bool \<times> Session)" where
  "walkToDeclPre SM Ds CodeCompletionFactory D W =
     (case D of
        FuncDecl FDLoc FE Nested \<Rightarrow>
          (case FE of
             Some Kind \<Rightarrow>
               if Kind \<noteq> Unparsed then Inr (False, W)
               else (case parseFunctionBody SM Ds CodeCompletionFactory FDLoc FE W of
                       Inl e \<Rightarrow> Inl e
                     | Inr W' \<Rightarrow> Inr (True, W'))
           | None \<Rightarrow> Inr (True, W))
      | OtherDecl Nested \<Rightarrow> Inr (True, W))"

fun walk :: "SourceManager \<Rightarrow> Diagnostic list \<Rightarrow> bool \<Rightarrow> Decl \<Rightarrow> Session \<Rightarrow> fault + Session"
  and walkAll :: "SourceManager \<Rightarrow> Diagnostic list \<Rightarrow> bool \<Rightarrow> Decl list \<Rightarrow> Session \<Rightarrow> fault + Session"
where
  "walk SM Ds F (FuncDecl FDLoc FE Nested) W =
     (case walkToDeclPre SM Ds F (FuncDecl FDLoc FE Nested) W of
        Inl e \<Rightarrow> Inl e
      | Inr (descend, W') \<Rightarrow> if descend then walkAll SM Ds F Nested W' else Inr W')"
| "walk SM Ds F (OtherDecl Nested) W =
     (case walkToDeclPre SM Ds F (OtherDecl Nested) W of
        Inl e \<Rightarrow> Inl e
      | Inr (descend, W') \<Rightarrow> if descend then walkAll SM Ds F Nested W' else Inr W')"
| "walkAll SM Ds F [] W = Inr W"
| "walkAll SM Ds F (D # Decls) W =
     (case walk SM Ds F D W of
        Inl e \<Rightarrow> Inl e
      | Inr W' \<Rightarrow> walkAll SM Ds F Decls W')"

text \<open>
  \<^verbatim>\<open>parseDelayedTopLevelDecl\<close>, lines 95-114, and \<^verbatim>\<open>swift::performDelayedParsing\<close>, lines
  136-147. \<^verbatim>\<open>hasDelayedDecl()\<close> holds when the persistent state has the location of a
  delayed declaration, which \<^verbatim>\<open>getDelayedDeclLoc()\<close> then returns.
\<close>

definition parseDelayedTopLevelDecl ::
  "SourceManager \<Rightarrow> Diagnostic list \<Rightarrow> bool \<Rightarrow> Session \<Rightarrow> fault + Session" where
  "parseDelayedTopLevelDecl SM Ds CodeCompletionFactory W =
     (if \<not> CodeCompletionFactory
      then Inl (AssertionFailed ''delayed parsing of decls only makes sense for code completion'')
      else
        case DelayedDeclLoc (ParserState W) of
          None \<Rightarrow> Inr W
        | Some DelayedLoc \<Rightarrow>
            let BufferID = FindBufferContainingLoc SM DelayedLoc;
                (TheParser, State') =
                   newParser SM Ds (word_of_int BufferID) False (Some (ParserState W));
                W1 = W\<lparr>ParserState := State'\<rparr>;
                CodeCompletion = Created W1;
                W2 = W1\<lparr>Trace := Trace W1 @ [createCodeCompletionCallbacks CodeCompletion,
                                              setCodeCompletionCallbacks CodeCompletion,
                                              parseTopLevelCodeDeclDelayed,
                                              doneParsing CodeCompletion],
                        Created := Suc (Created W1)\<rparr>
            in Inr W2)"

definition performDelayedParsing ::
  "SourceManager \<Rightarrow> Diagnostic list \<Rightarrow> bool \<Rightarrow> Decl list \<Rightarrow> Session \<Rightarrow> fault + Session" where
  "performDelayedParsing SM Ds CodeCompletionFactory Decls W =
     (case walkAll SM Ds CodeCompletionFactory Decls W of
        Inl e \<Rightarrow> Inl e
      | Inr W' \<Rightarrow>
          if CodeCompletionFactory
          then parseDelayedTopLevelDecl SM Ds CodeCompletionFactory W'
          else Inr W')"

section \<open>A sample buffer\<close>

text \<open>
  A buffer that holds the eight characters of the literal \<^verbatim>\<open>"x\(y)z"\<close> at the addresses
  10 to 17, for instantiating the theorems on the tokenizer: the lexer over the whole
  buffer produces the string literal, the literal has the segments \<^verbatim>\<open>x\<close>, \<^verbatim>\<open>y\<close>
  (interpolated) and \<^verbatim>\<open>z\<close>, and the lexer over the offsets 4 to 5 produces the identifier
  \<^verbatim>\<open>y\<close> and ends on the parenthesis that closes the interpolation.
\<close>

definition sampleLiteral :: string where
  "sampleLiteral = [CHR 0x22, CHR ''x'', CHR 0x5C, CHR ''('', CHR ''y'', CHR '')'', CHR ''z'', CHR 0x22]"

definition sampleStringToken :: Token where
  "sampleStringToken = \<lparr>getKind = string_literal, getText = sampleLiteral, getLoc = 10\<rparr>"

definition sampleBufferMgr :: SourceManager where
  "sampleBufferMgr =
     \<lparr>Memory = (\<lambda>a. if 10 \<le> a \<and> a < 18 then sampleLiteral ! nat (a - 10) else CHR 0x00),
      getBufferSize = (\<lambda>b. 8),
      getLocOffsetInBuffer = (\<lambda>l b. word_of_int (l - 10)),
      FindBufferContainingLoc = (\<lambda>l. 0),
      newLexer = (\<lambda>b s k r.
         if r = Some (0, 8) then \<lparr>pending = [sampleStringToken], eofText = [], eofLoc = 18\<rparr>
         else if r = Some (4, 5)
         then \<lparr>pending = [\<lparr>getKind = tok_identifier, getText = ''y'', getLoc = 14\<rparr>],
               eofText = '')'', eofLoc = 15\<rparr>
         else \<lparr>pending = [], eofText = [], eofLoc = 10\<rparr>),
      getStringLiteralSegments = (\<lambda>t.
         [\<lparr>segKind = Literal, segLoc = 11, segLength = 1\<rparr>,
          \<lparr>segKind = Expr, segLoc = 14, segLength = 1\<rparr>,
          \<lparr>segKind = Literal, segLoc = 16, segLength = 1\<rparr>]),
      getLocForEndOfToken = (\<lambda>l. l + 1),
      getStateForBeginningOfTokenLoc = (\<lambda>lx l. lx)\<rparr>"

section \<open>Sample inputs\<close>

text \<open>
  Concrete inputs at which the theorems below are instantiated: a source manager, a
  token, and a parser whose lexer has just produced the first token of a stream.
\<close>

definition sampleSourceMgr :: SourceManager where
  "sampleSourceMgr =
     \<lparr>Memory = (\<lambda>a. CHR ''x''),
      getBufferSize = (\<lambda>b. 0),
      getLocOffsetInBuffer = (\<lambda>l b. word_of_int l),
      FindBufferContainingLoc = (\<lambda>l. 0),
      newLexer = (\<lambda>b s k r. \<lparr>pending = [], eofText = [], eofLoc = 1\<rparr>),
      getStringLiteralSegments = (\<lambda>t. []),
      getLocForEndOfToken = (\<lambda>l. l + 1),
      getStateForBeginningOfTokenLoc = (\<lambda>lx l. lx)\<rparr>"

definition tokenAt :: "tok \<Rightarrow> string \<Rightarrow> SourceLoc \<Rightarrow> Token" where
  "tokenAt k s l = \<lparr>getKind = k, getText = s, getLoc = l\<rparr>"

definition parserOn :: "Token list \<Rightarrow> string \<Rightarrow> SourceLoc \<Rightarrow> Parser" where
  "parserOn ts e l =
     (case lex \<lparr>pending = ts, eofText = e, eofLoc = l\<rparr> of
        (t, Lx) \<Rightarrow> \<lparr>Tok = t, L = Lx, PreviousLoc = 0, Diags = [], SourceMgr = sampleSourceMgr\<rparr>)"

text \<open>
  Two element callbacks. \<open>identifierElement\<close> parses one identifier: it consumes an
  identifier and succeeds, and on any other token consumes nothing and reports an error.
  \<open>rewindingElement\<close> puts the cursor back on a separator that precedes an identifier,
  whatever the position it is called at.
\<close>

definition identifierElement :: "Parser \<Rightarrow> bool \<times> Parser" where
  "identifierElement P =
     (if getKind (Tok P) = tok_identifier
      then (case consumeToken P of Inl e \<Rightarrow> (True, P) | Inr (Loc, P') \<Rightarrow> (False, P'))
      else (True, P))"


text \<open>The state and the flag that a step of the list parser carries.\<close>

fun stepParser :: "listStep \<Rightarrow> Parser" where
  "stepParser (Continue Invalid P) = P"
| "stepParser (Break Invalid P) = P"
| "stepParser (Return r RightLoc P) = P"

fun stepInvalid :: "listStep \<Rightarrow> bool" where
  "stepInvalid (Continue Invalid P) = Invalid"
| "stepInvalid (Break Invalid P) = Invalid"
| "stepInvalid (Return r RightLoc P) = r"

section \<open>Properties of the cursor\<close>

lemma remaining_eof: "getKind (Tok P) = eof \<Longrightarrow> remaining P = 0"
  by (simp add: remaining_def upcoming_def)

lemma remaining_0: "remaining P = 0 \<Longrightarrow> getKind (Tok P) = eof"
  by (simp add: remaining_def upcoming_def split: if_splits)

lemma consumeToken_Inr:
  "getKind (Tok P) \<noteq> eof \<Longrightarrow>
   consumeToken P = Inr (getLoc (Tok P),
     P\<lparr>Tok := fst (lex (L P)), L := snd (lex (L P)), PreviousLoc := getLoc (Tok P)\<rparr>)"
  by (simp add: consumeToken_def Let_def split: prod.splits)

lemma upcoming_lex:
  "length (upcoming (P\<lparr>Tok := fst (lex (L P)), L := snd (lex (L P)), PreviousLoc := x\<rparr>)) \<le> length (pending (L P))"
  by (simp add: upcoming_def lex_def eofToken_def split: list.splits)

lemma consumeToken_less:
  "consumeToken P = Inr (Loc, P') \<Longrightarrow> remaining P' < remaining P \<and> Diags P' = Diags P"
  by (auto simp: consumeToken_def Let_def remaining_def upcoming_def lex_def eofToken_def
      split: prod.splits if_splits list.splits)

lemma consumeIf_cases:
  "getKind (Tok P) \<noteq> K \<Longrightarrow> consumeIf K P = Inr (False, P)"
  "getKind (Tok P) = K \<Longrightarrow> K \<noteq> eof \<Longrightarrow> \<exists>P'. consumeIf K P = Inr (True, P') \<and> consumeToken P = Inr (getLoc (Tok P), P')"
  by (auto simp: consumeIf_def consumeTokenK_def consumeToken_Inr)

lemma consumeIf_le:
  "K \<noteq> eof \<Longrightarrow> \<exists>b P'. consumeIf K P = Inr (b, P') \<and> remaining P' \<le> remaining P \<and> Diags P' = Diags P
     \<and> (b \<longrightarrow> remaining P' < remaining P) \<and> (b = (getKind (Tok P) = K))"
  using consumeIf_cases[of P K] consumeToken_less[of P]
  by (cases "getKind (Tok P) = K") fastforce+

section \<open>Properties of the recovery engine\<close>

declare skipSingle.simps [simp del] skipUntil.simps [simp del]

lemma closerOf_not_eof: "isOpener k \<Longrightarrow> closerOf k \<noteq> eof \<and> closerOf k \<noteq> unknown"
  by (auto simp: isOpener_def)

lemma skipSingle_open:
  "isOpener (getKind (Tok P)) \<Longrightarrow>
   skipSingle n S P =
     bindF (Some (consumeToken P)) (\<lambda>(Loc, P1).
     bindF (skipUntil n (closerOf (getKind (Tok P))) unknown S P1) (\<lambda>P2.
     bindF (Some (consumeIf (closerOf (getKind (Tok P))) P2)) (\<lambda>(b, P3). Some (Inr P3))))"
  by (subst skipSingle.simps) (auto simp: isOpener_def)

lemma skipSingle_plain:
  "\<not> isOpener (getKind (Tok P)) \<Longrightarrow> \<not> (S \<and> getKind (Tok P) = code_complete) \<Longrightarrow>
   skipSingle n S P = bindF (Some (consumeToken P)) (\<lambda>(Loc, P1). Some (Inr P1))"
  by (subst skipSingle.simps) (cases "getKind (Tok P)"; simp add: isOpener_def)

lemma skipSingle_stop:
  "S \<Longrightarrow> getKind (Tok P) = code_complete \<Longrightarrow> skipSingle n S P = Some (Inr P)"
  by (subst skipSingle.simps) simp

lemma skipUntil_sentinel: "skipUntil n unknown unknown S P = Some (Inr P)"
  by (subst skipUntil.simps) simp

lemma skipUntil_stop:
  "\<not> skipCond T1 T2 S P \<Longrightarrow> skipUntil n T1 T2 S P = Some (Inr P)"
  by (subst skipUntil.simps) (auto simp: skipCond_def)

lemma skipUntil_step:
  "skipCond T1 T2 S P \<Longrightarrow> \<not> (T1 = unknown \<and> T2 = unknown) \<Longrightarrow>
   skipUntil (Suc m) T1 T2 S P = bindF (skipSingle m S P) (\<lambda>P'. skipUntil m T1 T2 S P')"
  by (subst skipUntil.simps) (auto simp: skipCond_def)

lemma skipSingle_from_skipUntil:
  assumes U: "\<And>T1 T2 S P. remaining P \<le> n \<Longrightarrow>
            \<exists>P'. skipUntil n T1 T2 S P = Some (Inr P') \<and> remaining P' \<le> remaining P \<and>
                 Diags P' = Diags P \<and> skipPost T1 T2 S P P'"
    and r: "remaining P \<le> Suc n" and ne: "getKind (Tok P) \<noteq> eof"
    and ns: "\<not> (S \<and> getKind (Tok P) = code_complete)"
  shows "\<exists>P'. skipSingle n S P = Some (Inr P') \<and> remaining P' < remaining P \<and> Diags P' = Diags P"
proof -
  obtain P1 where c: "consumeToken P = Inr (getLoc (Tok P), P1)"
    using consumeToken_Inr[OF ne] by blast
  have l1: "remaining P1 < remaining P" "Diags P1 = Diags P"
    using consumeToken_less[OF c] by auto
  show ?thesis
  proof (cases "isOpener (getKind (Tok P))")
    case True
    let ?c = "closerOf (getKind (Tok P))"
    from l1 r have "remaining P1 \<le> n" by simp
    from U[OF this, of ?c unknown S] obtain P2 where
      u: "skipUntil n ?c unknown S P1 = Some (Inr P2)" "remaining P2 \<le> remaining P1" "Diags P2 = Diags P1"
      by blast
    from consumeIf_le[of ?c P2] closerOf_not_eof[OF True] obtain b P3 where
      i: "consumeIf ?c P2 = Inr (b, P3)" "remaining P3 \<le> remaining P2" "Diags P3 = Diags P2"
      by blast
    have "skipSingle n S P = Some (Inr P3)"
      by (simp add: skipSingle_open[OF True] c u i bindF_def)
    with l1 u i show ?thesis by simp
  next
    case False
    have "skipSingle n S P = Some (Inr P1)"
      using skipSingle_plain[OF False ns] by (simp add: c bindF_def)
    with l1 show ?thesis by simp
  qed
qed

lemma skipUntil_total_aux:
  "\<forall>T1 T2 S P. remaining P \<le> n \<longrightarrow>
      (\<exists>P'. skipUntil n T1 T2 S P = Some (Inr P') \<and> remaining P' \<le> remaining P \<and>
                 Diags P' = Diags P \<and> skipPost T1 T2 S P P')"
proof (induction n)
  case 0
  show ?case
  proof (intro allI impI)
    fix T1 T2 S P assume "remaining P \<le> 0"
    then have e: "getKind (Tok P) = eof" using remaining_0 by simp
    then have "skipUntil 0 T1 T2 S P = Some (Inr P)"
      by (simp add: skipUntil_stop skipCond_def)
    with e show "\<exists>P'. skipUntil 0 T1 T2 S P = Some (Inr P') \<and> remaining P' \<le> remaining P \<and>
                 Diags P' = Diags P \<and> skipPost T1 T2 S P P'"
      by (simp add: skipPost_def)
  qed
next
  case (Suc n)
  then have U: "\<And>T1 T2 S P. remaining P \<le> n \<Longrightarrow>
            \<exists>P'. skipUntil n T1 T2 S P = Some (Inr P') \<and> remaining P' \<le> remaining P \<and>
                 Diags P' = Diags P \<and> skipPost T1 T2 S P P'"
    by blast
  show ?case
  proof (intro allI impI)
    fix T1 T2 S P assume r: "remaining P \<le> Suc n"
    show "\<exists>P'. skipUntil (Suc n) T1 T2 S P = Some (Inr P') \<and> remaining P' \<le> remaining P \<and>
                 Diags P' = Diags P \<and> skipPost T1 T2 S P P'"
    proof (cases "T1 = unknown \<and> T2 = unknown")
      case True
      then show ?thesis by (simp add: skipUntil_sentinel skipPost_def)
    next
      case ns: False
      show ?thesis
      proof (cases "skipCond T1 T2 S P")
        case False
        then have "skipUntil (Suc n) T1 T2 S P = Some (Inr P)" by (rule skipUntil_stop)
        with False ns show ?thesis by (auto simp: skipPost_def skipCond_def)
      next
        case True
        then have ne: "getKind (Tok P) \<noteq> eof" and nc: "\<not> (S \<and> getKind (Tok P) = code_complete)"
          by (auto simp: skipCond_def)
        from skipSingle_from_skipUntil[OF U r ne nc] obtain P1 where
          s: "skipSingle n S P = Some (Inr P1)" "remaining P1 < remaining P" "Diags P1 = Diags P"
          by blast
        with r have "remaining P1 \<le> n" by simp
        from U[OF this, of T1 T2 S] obtain P2 where
          u: "skipUntil n T1 T2 S P1 = Some (Inr P2)" "remaining P2 \<le> remaining P1"
             "Diags P2 = Diags P1" "skipPost T1 T2 S P1 P2"
          by blast
        have "skipUntil (Suc n) T1 T2 S P = Some (Inr P2)"
          by (simp add: skipUntil_step[OF True ns] s u bindF_def)
        with s u ns show ?thesis by (auto simp: skipPost_def)
      qed
    qed
  qed
qed

lemma skipUntil_total:
  "remaining P \<le> n \<Longrightarrow>
     \<exists>P'. skipUntil n T1 T2 S P = Some (Inr P') \<and> remaining P' \<le> remaining P \<and>
                 Diags P' = Diags P \<and> skipPost T1 T2 S P P'"
  using skipUntil_total_aux by blast

lemma skipSingle_total:
  "remaining P \<le> Suc n \<Longrightarrow> getKind (Tok P) \<noteq> eof \<Longrightarrow> \<not> (S \<and> getKind (Tok P) = code_complete) \<Longrightarrow>
   \<exists>P'. skipSingle n S P = Some (Inr P') \<and> remaining P' < remaining P \<and> Diags P' = Diags P"
  using skipSingle_from_skipUntil[of n P S] skipUntil_total by blast

section \<open>The recursion of the recovery engine and the explicit stack\<close>

lemma upcoming_Nil: "upcoming P = [] \<longleftrightarrow> getKind (Tok P) = eof"
  by (simp add: upcoming_def)

lemma upcoming_Cons: "upcoming P = t # ts \<Longrightarrow> Tok P = t \<and> getKind t \<noteq> eof \<and> pending (L P) = ts"
  by (simp add: upcoming_def split: if_splits)

lemma plainTokens_Cons: "plainTokens (t # ts) = (getKind t \<noteq> eof \<and> getKind t \<noteq> unknown \<and> plainTokens ts)"
  by (simp add: plainTokens_def)

lemma consume_upcoming:
  assumes "upcoming P = t # ts" and "plainTokens ts"
  shows "\<exists>P'. consumeToken P = Inr (getLoc t, P') \<and> upcoming P' = ts"
proof -
  from assms(1) have t: "Tok P = t" "getKind t \<noteq> eof" "pending (L P) = ts"
    using upcoming_Cons by auto
  show ?thesis
  proof (cases ts)
    case Nil
    with t show ?thesis
      by (simp add: consumeToken_def Let_def lex_def eofToken_def upcoming_def)
  next
    case (Cons t' ts')
    with assms(2) have "getKind t' \<noteq> eof" by (simp add: plainTokens_Cons)
    with t Cons show ?thesis
      by (simp add: consumeToken_def Let_def lex_def upcoming_def)
  qed
qed

lemma consumeIf_upcoming_hit:
  assumes "upcoming P = t # ts" and "plainTokens ts" and "getKind t = K"
  shows "\<exists>P'. consumeIf K P = Inr (True, P') \<and> upcoming P' = ts"
proof -
  from consume_upcoming[OF assms(1,2)] obtain P' where
    c: "consumeToken P = Inr (getLoc t, P')" "upcoming P' = ts" by blast
  from assms(1,3) have "getKind (Tok P) = K" using upcoming_Cons by auto
  with c show ?thesis by (simp add: consumeIf_def consumeTokenK_def)
qed

lemma consumeIf_miss: "getKind (Tok P) \<noteq> K \<Longrightarrow> consumeIf K P = Inr (False, P)"
  by (simp add: consumeIf_def)

lemma isCloser_facts:
  "isCloser c \<Longrightarrow> c \<noteq> eof \<and> c \<noteq> unknown \<and> c \<noteq> code_complete \<and> \<not> isOpener c"
  by (auto simp: isCloser_def isOpener_def)

lemma isCloser_closerOf: "isOpener k \<Longrightarrow> isCloser (closerOf k)"
  by (auto simp: isCloser_def isOpener_def)

lemma skipUntil_closer_aux:
  "\<forall>P c st. isCloser c \<longrightarrow> plainTokens (upcoming P) \<longrightarrow> length (upcoming P) \<le> n \<longrightarrow>
     (\<exists>P2. skipUntil n c unknown S P = Some (Inr P2) \<and> plainTokens (upcoming P2) \<and>
           length (upcoming P2) \<le> length (upcoming P) \<and>
           skipToClose S (c # st) (upcoming P) = afterStop S st (upcoming P2) \<and>
           (\<forall>t r. upcoming P2 = t # r \<longrightarrow> (S \<and> getKind t = code_complete) \<or> getKind t = c))"
proof (induction n)
  case 0
  show ?case
  proof (intro allI impI)
    fix P c st assume "isCloser c" "plainTokens (upcoming P)" "length (upcoming P) \<le> 0"
    then have u: "upcoming P = []" by simp
    then have "getKind (Tok P) = eof" by (simp add: upcoming_Nil)
    then have "skipUntil 0 c unknown S P = Some (Inr P)"
      by (simp add: skipUntil_stop skipCond_def)
    with u show "\<exists>P2. skipUntil 0 c unknown S P = Some (Inr P2) \<and> plainTokens (upcoming P2) \<and>
           length (upcoming P2) \<le> length (upcoming P) \<and>
           skipToClose S (c # st) (upcoming P) = afterStop S st (upcoming P2) \<and>
           (\<forall>t r. upcoming P2 = t # r \<longrightarrow> (S \<and> getKind t = code_complete) \<or> getKind t = c)"
      by (simp add: afterStop_def plainTokens_def)
  qed
next
  case (Suc m)
  then have IH: "\<And>P c st. isCloser c \<Longrightarrow> plainTokens (upcoming P) \<Longrightarrow> length (upcoming P) \<le> m \<Longrightarrow>
     \<exists>P2. skipUntil m c unknown S P = Some (Inr P2) \<and> plainTokens (upcoming P2) \<and>
           length (upcoming P2) \<le> length (upcoming P) \<and>
           skipToClose S (c # st) (upcoming P) = afterStop S st (upcoming P2) \<and>
           (\<forall>t r. upcoming P2 = t # r \<longrightarrow> (S \<and> getKind t = code_complete) \<or> getKind t = c)"
    by blast
  show ?case
  proof (intro allI impI)
    fix P c st
    assume c: "isCloser c" and pl: "plainTokens (upcoming P)" and len: "length (upcoming P) \<le> Suc m"
    let ?goal = "\<exists>P2. skipUntil (Suc m) c unknown S P = Some (Inr P2) \<and> plainTokens (upcoming P2) \<and>
           length (upcoming P2) \<le> length (upcoming P) \<and>
           skipToClose S (c # st) (upcoming P) = afterStop S st (upcoming P2) \<and>
           (\<forall>t r. upcoming P2 = t # r \<longrightarrow> (S \<and> getKind t = code_complete) \<or> getKind t = c)"
    note cf = isCloser_facts[OF c]
    show ?goal
    proof (cases "upcoming P")
      case Nil
      then have "getKind (Tok P) = eof" by (simp add: upcoming_Nil)
      then have "skipUntil (Suc m) c unknown S P = Some (Inr P)"
        by (simp add: skipUntil_stop skipCond_def)
      with Nil show ?thesis by (simp add: afterStop_def plainTokens_def)
    next
      case (Cons t ts)
      then have t: "Tok P = t" "getKind t \<noteq> eof" "pending (L P) = ts"
        using upcoming_Cons by auto
      from pl Cons have tu: "getKind t \<noteq> unknown" and pts: "plainTokens ts"
        by (simp_all add: plainTokens_Cons)
      from len Cons have lts: "length ts \<le> m" by simp
      show ?thesis
      proof (cases "(S \<and> getKind t = code_complete) \<or> getKind t = c")
        case True
        then have "\<not> skipCond c unknown S P" using t by (auto simp: skipCond_def)
        then have "skipUntil (Suc m) c unknown S P = Some (Inr P)" by (rule skipUntil_stop)
        moreover have "skipToClose S (c # st) (t # ts) = afterStop S st (t # ts)"
          using True cf by (auto simp: afterStop_def)
        ultimately show ?thesis using Cons pl True by auto
      next
        case False
        then have sc: "skipCond c unknown S P" using t tu by (auto simp: skipCond_def)
        have ns: "\<not> (c = unknown \<and> unknown = unknown)" using cf by simp
        have step: "skipUntil (Suc m) c unknown S P =
                      bindF (skipSingle m S P) (\<lambda>P'. skipUntil m c unknown S P')"
          by (rule skipUntil_step[OF sc ns])
        from consume_upcoming[OF Cons pts] obtain P1 where
          c1: "consumeToken P = Inr (getLoc t, P1)" "upcoming P1 = ts" by blast
        show ?thesis
        proof (cases "isOpener (getKind t)")
          case nop: False
          have "skipSingle m S P = Some (Inr P1)"
            using skipSingle_plain[of P S m] nop False t c1 by (simp add: bindF_def)
          then have s: "skipUntil (Suc m) c unknown S P = skipUntil m c unknown S P1"
            by (simp add: step bindF_def)
          from IH[OF c, of P1 st] pts lts c1 obtain P2 where
            u: "skipUntil m c unknown S P1 = Some (Inr P2)" "plainTokens (upcoming P2)"
               "length (upcoming P2) \<le> length ts"
               "skipToClose S (c # st) ts = afterStop S st (upcoming P2)"
               "\<forall>t r. upcoming P2 = t # r \<longrightarrow> (S \<and> getKind t = code_complete) \<or> getKind t = c"
            by auto
          have "skipToClose S (c # st) (t # ts) = skipToClose S (c # st) ts"
            using False nop by auto
          with s u Cons show ?thesis by auto
        next
          case op: True
          let ?c' = "closerOf (getKind t)"
          have c': "isCloser ?c'" by (rule isCloser_closerOf[OF op])
          note cf' = isCloser_facts[OF c']
          from IH[OF c', of P1 "c # st"] pts lts c1 obtain P2 where
            u: "skipUntil m ?c' unknown S P1 = Some (Inr P2)" "plainTokens (upcoming P2)"
               "length (upcoming P2) \<le> length ts"
               "skipToClose S (?c' # c # st) ts = afterStop S (c # st) (upcoming P2)"
               "\<forall>t r. upcoming P2 = t # r \<longrightarrow> (S \<and> getKind t = code_complete) \<or> getKind t = ?c'"
            by auto
          have push: "skipToClose S (c # st) (t # ts) = skipToClose S (?c' # c # st) ts"
            using False op by auto
          have ss: "\<And>P3. consumeIf ?c' P2 = Inr (b, P3) \<Longrightarrow> skipSingle m S P = Some (Inr P3)" for b
            using skipSingle_open[of P m S] op t c1 u(1) by (simp add: bindF_def)
          show ?thesis
          proof (cases "upcoming P2")
            case Nil
            then have e: "getKind (Tok P2) = eof" by (simp add: upcoming_Nil)
            with cf' have "consumeIf ?c' P2 = Inr (False, P2)" by (auto simp: consumeIf_def)
            from ss[OF this] have s: "skipUntil (Suc m) c unknown S P = skipUntil m c unknown S P2"
              by (simp add: step bindF_def)
            from e have "skipUntil m c unknown S P2 = Some (Inr P2)"
              by (simp add: skipUntil_stop skipCond_def)
            with s Nil u push Cons show ?thesis by (simp add: afterStop_def plainTokens_def)
          next
            case (Cons t' r)
            note P2c = Cons
            then have t': "Tok P2 = t'" "getKind t' \<noteq> eof" using upcoming_Cons by auto
            from u(2) P2c have pr: "plainTokens r" by (simp add: plainTokens_Cons)
            show ?thesis
            proof (cases "S \<and> getKind t' = code_complete")
              case True
              with cf' t' have "consumeIf ?c' P2 = Inr (False, P2)" by (auto simp: consumeIf_def)
              from ss[OF this] have s: "skipUntil (Suc m) c unknown S P = skipUntil m c unknown S P2"
                by (simp add: step bindF_def)
              from True t' have "\<not> skipCond c unknown S P2" by (simp add: skipCond_def)
              then have "skipUntil m c unknown S P2 = Some (Inr P2)" by (rule skipUntil_stop)
              with s u push P2c True \<open>upcoming P = t # ts\<close> show ?thesis
                by (simp add: afterStop_def)
            next
              case nm: False
              with u(5) P2c have k: "getKind t' = ?c'" by auto
              from consumeIf_upcoming_hit[OF P2c pr k] obtain P3 where
                c3: "consumeIf ?c' P2 = Inr (True, P3)" "upcoming P3 = r" by blast
              from ss[OF c3(1)] have s: "skipUntil (Suc m) c unknown S P = skipUntil m c unknown S P3"
                by (simp add: step bindF_def)
              from u(3) P2c lts have lr: "length r \<le> m" by simp
              from IH[OF c, of P3 st] pr lr c3 obtain P4 where
                v: "skipUntil m c unknown S P3 = Some (Inr P4)" "plainTokens (upcoming P4)"
                   "length (upcoming P4) \<le> length r"
                   "skipToClose S (c # st) r = afterStop S st (upcoming P4)"
                   "\<forall>t r. upcoming P4 = t # r \<longrightarrow> (S \<and> getKind t = code_complete) \<or> getKind t = c"
                by auto
              have "afterStop S (c # st) (t' # r) = skipToClose S (c # st) r"
                using nm by (auto simp: afterStop_def)
              with u(4) P2c push v(4)
              have "skipToClose S (c # st) (t # ts) = afterStop S st (upcoming P4)" by simp
              moreover have "length (upcoming P4) \<le> length (t # ts)"
                using v(3) u(3) P2c by simp
              moreover have "skipUntil (Suc m) c unknown S P = Some (Inr P4)"
                using s v(1) by simp
              ultimately show ?thesis
                using v(2,5) \<open>upcoming P = t # ts\<close> by auto
            qed
          qed
        qed
      qed
    qed
  qed
qed

lemma skipSingle_opener_refines:
  assumes up: "upcoming P = t # ts" and op: "isOpener (getKind t)" and pl: "plainTokens ts"
    and len: "length ts \<le> n"
  shows "\<exists>P'. skipSingle n S P = Some (Inr P') \<and>
              upcoming P' = leftOver (skipToClose S [closerOf (getKind t)] ts)"
proof -
  let ?c = "closerOf (getKind t)"
  have c: "isCloser ?c" by (rule isCloser_closerOf[OF op])
  note cf = isCloser_facts[OF c]
  from up have t: "Tok P = t" using upcoming_Cons by auto
  from consume_upcoming[OF up pl] obtain P1 where
    c1: "consumeToken P = Inr (getLoc t, P1)" "upcoming P1 = ts" by blast
  from skipUntil_closer_aux[of n S] c pl len c1 obtain P2 where
    u: "skipUntil n ?c unknown S P1 = Some (Inr P2)" "plainTokens (upcoming P2)"
       "skipToClose S [?c] ts = afterStop S [] (upcoming P2)"
       "\<forall>t r. upcoming P2 = t # r \<longrightarrow> (S \<and> getKind t = code_complete) \<or> getKind t = ?c"
    by (metis (no_types, lifting))
  have ss: "\<And>P3. consumeIf ?c P2 = Inr (b, P3) \<Longrightarrow> skipSingle n S P = Some (Inr P3)" for b
    using skipSingle_open[of P n S] op t c1 u(1) by (simp add: bindF_def)
  show ?thesis
  proof (cases "upcoming P2")
    case Nil
    then have "getKind (Tok P2) = eof" by (simp add: upcoming_Nil)
    with cf have "consumeIf ?c P2 = Inr (False, P2)" by (auto simp: consumeIf_def)
    from ss[OF this] Nil u show ?thesis by (simp add: afterStop_def)
  next
    case (Cons t' r)
    then have t': "Tok P2 = t'" using upcoming_Cons by auto
    from u(2) Cons have pr: "plainTokens r" by (simp add: plainTokens_Cons)
    show ?thesis
    proof (cases "S \<and> getKind t' = code_complete")
      case True
      with cf t' have "consumeIf ?c P2 = Inr (False, P2)" by (auto simp: consumeIf_def)
      from ss[OF this] Cons u True show ?thesis by (simp add: afterStop_def)
    next
      case False
      with u(4) Cons have k: "getKind t' = ?c" by auto
      from consumeIf_upcoming_hit[OF Cons pr k] obtain P3 where
        c3: "consumeIf ?c P2 = Inr (True, P3)" "upcoming P3 = r" by blast
      from ss[OF c3(1)] c3 Cons u False show ?thesis by (simp add: afterStop_def)
    qed
  qed
qed

lemma skipToClose_AtMarker:
  "skipToClose S st ts = AtMarker r \<Longrightarrow> S \<and> (\<exists>t r'. r = t # r' \<and> getKind t = code_complete)"
  by (induction S st ts rule: skipToClose.induct) (auto split: if_splits)

section \<open>Properties of the list parser\<close>

declare leadingSeparators.simps [simp del]

lemma leadingSeparators_total:
  "SeparatorK \<noteq> eof \<Longrightarrow>
   \<exists>P0. leadingSeparators SeparatorK P = Inr P0 \<and> remaining P0 \<le> remaining P \<and>
        getKind (Tok P0) \<noteq> SeparatorK \<and> SourceMgr P0 = SourceMgr P"
proof (induction SeparatorK P rule: leadingSeparators.induct)
  case (1 SeparatorK P)
  show ?case
  proof (cases "getKind (Tok P) = SeparatorK")
    case False
    then show ?thesis by (subst leadingSeparators.simps) simp
  next
    case True
    let ?D = "diagnose (getLoc (Tok P)) unexpected_separator (separatorText SeparatorK)
                      [fixItRemove (getLoc (Tok P))] P"
    have ne: "getKind (Tok ?D) \<noteq> eof" using True "1.prems" by (simp add: diagnose_def)
    from consumeToken_Inr[OF ne] obtain P' where
      c: "consumeToken ?D = Inr (getLoc (Tok ?D), P')" "SourceMgr P' = SourceMgr P"
      by (simp add: diagnose_def)
    from consumeToken_less[OF c(1)] have l: "remaining P' < remaining ?D" by simp
    have "remaining ?D = remaining P" by (simp add: remaining_def upcoming_def diagnose_def)
    with l have l': "remaining P' < remaining P" by simp
    from "1.IH"[OF True c(1) refl "1.prems"] obtain P0 where
      "leadingSeparators SeparatorK P' = Inr P0" "remaining P0 \<le> remaining P'"
      "getKind (Tok P0) \<noteq> SeparatorK" "SourceMgr P0 = SourceMgr P'"
      by blast
    with True c l' show ?thesis
      by (subst leadingSeparators.simps) simp
  qed
qed

lemma leadingSeparators_none:
  "getKind (Tok P) \<noteq> SeparatorK \<Longrightarrow> leadingSeparators SeparatorK P = Inr P"
  by (subst leadingSeparators.simps) simp


lemma remaining_diagnose [simp]: "remaining (diagnose Loc D Arg Fix P) = remaining P"
  by (simp add: remaining_def upcoming_def diagnose_def)

lemma Tok_diagnose [simp]: "Tok (diagnose Loc D Arg Fix P) = Tok P"
  by (simp add: diagnose_def)

lemma body_unfold:
  assumes "leadingSeparators SeparatorK P = Inr P0" and "callback P0 = (r, P1)"
  shows "parseList_body n StopDefault RightK SeparatorK OptionalSep callback Invalid P =
     (if getKind (Tok P1) = RightK then Some (Inr (Break (Invalid \<or> r) P1))
       else if getKind (Tok P1) = eof \<and> getText (Tok P1) = '')''
       then Some (Inr (Return (Invalid \<or> r) (Some (getLoc (Tok P1))) P1))
       else
         bindF (Some (consumeIf SeparatorK P1)) (\<lambda>(consumed, P2).
           if consumed then Some (Inr (Continue (Invalid \<or> r) P2))
           else
             let InsertLoc = getLocForEndOfToken (SourceMgr P2) (PreviousLoc P2);
                 Separator = separatorText SeparatorK;
                 (Invalid2, P3) =
                   (if \<not> OptionalSep
                    then (True, diagnose (getLoc (Tok P2)) expected_separator Separator
                                  [fixItInsert InsertLoc Separator] P2)
                    else (Invalid \<or> r, P2))
             in
             if getLoc (Tok P3) = getLoc (Tok P0)
             then
               bindF (skipUntil n RightK SeparatorK StopDefault P3) (\<lambda>P4.
                 if getKind (Tok P4) = RightK then Some (Inr (Break Invalid2 P4))
                 else if getKind (Tok P4) = eof \<or> getKind (Tok P4) = code_complete
                 then Some (Inr (Return True None P4))
                 else bindF (Some (consumeIf SeparatorK P4)) (\<lambda>(c, P5).
                        Some (Inr (Continue Invalid2 P5))))
             else Some (Inr (Continue Invalid2 P3))))"
  using assms by (simp add: parseList_body_def bindF_def Let_def)

text \<open>The diagnostic of line 453 and the state it is added to.\<close>

lemma body_missing:
  assumes ls: "leadingSeparators SeparatorK P = Inr P0" and cb: "callback P0 = (r, P1)"
    and nr: "getKind (Tok P1) \<noteq> RightK"
    and ne: "\<not> (getKind (Tok P1) = eof \<and> getText (Tok P1) = '')'')"
    and nsep: "getKind (Tok P1) \<noteq> SeparatorK"
  shows "parseList_body n StopDefault RightK SeparatorK OptionalSep callback Invalid P =
     (let P3 = (if \<not> OptionalSep
                then diagnose (getLoc (Tok P1)) expected_separator (separatorText SeparatorK)
                       [fixItInsert (getLocForEndOfToken (SourceMgr P1) (PreviousLoc P1))
                          (separatorText SeparatorK)] P1
                else P1);
          Invalid2 = (\<not> OptionalSep \<or> Invalid \<or> r)
      in
      if getLoc (Tok P1) = getLoc (Tok P0)
      then
        bindF (skipUntil n RightK SeparatorK StopDefault P3) (\<lambda>P4.
          if getKind (Tok P4) = RightK then Some (Inr (Break Invalid2 P4))
          else if getKind (Tok P4) = eof \<or> getKind (Tok P4) = code_complete
          then Some (Inr (Return True None P4))
          else bindF (Some (consumeIf SeparatorK P4)) (\<lambda>(c, P5).
                 Some (Inr (Continue Invalid2 P5))))
      else Some (Inr (Continue Invalid2 P3)))"
proof -
  have "consumeIf SeparatorK P1 = Inr (False, P1)" using nsep by (simp add: consumeIf_def)
  then show ?thesis
    using nr ne
    by (cases OptionalSep; cases "getKind (Tok P1) = eof")
       (simp_all add: body_unfold[where callback=callback, OF ls cb] bindF_def Let_def)
qed

lemma body_separator:
  assumes ls: "leadingSeparators SeparatorK P = Inr P0" and cb: "callback P0 = (r, P1)"
    and nr: "getKind (Tok P1) \<noteq> RightK"
    and sep: "getKind (Tok P1) = SeparatorK" and se: "SeparatorK \<noteq> eof"
  shows "\<exists>P2. consumeToken P1 = Inr (getLoc (Tok P1), P2) \<and>
     parseList_body n StopDefault RightK SeparatorK OptionalSep callback Invalid P =
       Some (Inr (Continue (Invalid \<or> r) P2))"
proof -
  from consumeIf_cases(2)[OF sep se] obtain P2 where
    c: "consumeIf SeparatorK P1 = Inr (True, P2)" "consumeToken P1 = Inr (getLoc (Tok P1), P2)"
    by blast
  then show ?thesis
    using nr sep se by (simp add: body_unfold[where callback=callback, OF ls cb] bindF_def)
qed

lemma body_progress:
  assumes cons: "consuming callback" and sep: "SeparatorK = comma \<or> SeparatorK = semi"
    and fuel: "remaining P \<le> n"
  shows "\<exists>step. parseList_body n StopDefault RightK SeparatorK OptionalSep callback Invalid P =
                  Some (Inr step) \<and>
     (case step of
        Continue Invalid' P' \<Rightarrow> remaining P' < remaining P
      | Break Invalid' P' \<Rightarrow> getKind (Tok P') = RightK
      | Return r RightLoc P' \<Rightarrow> RightLoc = None \<longrightarrow> r)"
proof -
  from sep have se: "SeparatorK \<noteq> eof" "SeparatorK \<noteq> unknown" by auto
  from leadingSeparators_total[OF se(1), of P] obtain P0 where
    ls: "leadingSeparators SeparatorK P = Inr P0" "remaining P0 \<le> remaining P" by blast
  obtain r P1 where cb: "callback P0 = (r, P1)" by (cases "callback P0")
  from cons cb have mono: "remaining P1 < remaining P0 \<or>
      (remaining P1 = remaining P0 \<and> getLoc (Tok P1) = getLoc (Tok P0))"
    unfolding consuming_def by (metis snd_conv)
  then have le: "remaining P1 \<le> remaining P0" by auto
  show ?thesis
  proof (cases "getKind (Tok P1) = RightK")
    case True
    then show ?thesis by (simp add: body_unfold[where callback=callback, OF ls(1) cb])
  next
    case nr: False
    show ?thesis
    proof (cases "getKind (Tok P1) = eof \<and> getText (Tok P1) = '')''")
      case True
      with nr show ?thesis by (simp add: body_unfold[where callback=callback, OF ls(1) cb])
    next
      case ne: False
      show ?thesis
      proof (cases "getKind (Tok P1) = SeparatorK")
        case True
        from body_separator[where callback=callback, OF ls(1) cb nr True se(1), of n StopDefault OptionalSep Invalid]
        obtain P2 where c: "consumeToken P1 = Inr (getLoc (Tok P1), P2)"
          "parseList_body n StopDefault RightK SeparatorK OptionalSep callback Invalid P =
             Some (Inr (Continue (Invalid \<or> r) P2))" by blast
        from consumeToken_less[OF c(1)] le ls(2) have "remaining P2 < remaining P" by simp
        with c(2) show ?thesis by simp
      next
        case nsep: False
        let ?P3 = "if \<not> OptionalSep
                then diagnose (getLoc (Tok P1)) expected_separator (separatorText SeparatorK)
                       [fixItInsert (getLocForEndOfToken (SourceMgr P1) (PreviousLoc P1))
                          (separatorText SeparatorK)] P1
                else P1"
        let ?I = "\<not> OptionalSep \<or> Invalid \<or> r"
        note bm = body_missing[where callback=callback, OF ls(1) cb nr ne nsep, of n StopDefault OptionalSep Invalid]
        have r3: "remaining ?P3 = remaining P1" by simp
        show ?thesis
        proof (cases "getLoc (Tok P1) = getLoc (Tok P0)")
          case False
          with mono have "remaining P1 < remaining P0" by auto
          with ls(2) have "remaining ?P3 < remaining P" using r3 by simp
          moreover have "parseList_body n StopDefault RightK SeparatorK OptionalSep callback Invalid P
                  = Some (Inr (Continue ?I ?P3))"
            using False by (simp add: bm Let_def)
          ultimately show ?thesis by simp
        next
          case True
          have "remaining ?P3 \<le> n" using r3 le ls(2) fuel by simp
          from skipUntil_total[OF this, of RightK SeparatorK StopDefault] obtain P4 where
            u: "skipUntil n RightK SeparatorK StopDefault ?P3 = Some (Inr P4)"
               "remaining P4 \<le> remaining ?P3" "skipPost RightK SeparatorK StopDefault ?P3 P4"
            by blast
          from u(3) se have post: "getKind (Tok P4) = eof \<or> getKind (Tok P4) = RightK \<or>
               getKind (Tok P4) = SeparatorK \<or> (StopDefault \<and> getKind (Tok P4) = code_complete)"
            by (simp add: skipPost_def)
          have b: "parseList_body n StopDefault RightK SeparatorK OptionalSep callback Invalid P =
             (if getKind (Tok P4) = RightK then Some (Inr (Break ?I P4))
              else if getKind (Tok P4) = eof \<or> getKind (Tok P4) = code_complete
              then Some (Inr (Return True None P4))
              else bindF (Some (consumeIf SeparatorK P4)) (\<lambda>(c, P5).
                     Some (Inr (Continue ?I P5))))"
            using True u(1) by (simp add: bm Let_def bindF_def)
          show ?thesis
          proof (cases "getKind (Tok P4) = RightK \<or> getKind (Tok P4) = eof \<or>
                        getKind (Tok P4) = code_complete")
            case True
            then show ?thesis by (auto simp: b)
          next
            case False
            with post have k: "getKind (Tok P4) = SeparatorK" by auto
            from consumeIf_cases(2)[OF k se(1)] obtain P5 where
              c: "consumeIf SeparatorK P4 = Inr (True, P5)"
                 "consumeToken P4 = Inr (getLoc (Tok P4), P5)" by blast
            from consumeToken_less[OF c(2)] u(2) r3 le ls(2) have "remaining P5 < remaining P"
              by simp
            with False c(1) show ?thesis by (simp add: b bindF_def)
          qed
        qed
      qed
    qed
  qed
qed

lemma loop_terminates:
  assumes cons: "consuming callback" and sep: "SeparatorK = comma \<or> SeparatorK = semi"
  shows "remaining P < n \<Longrightarrow>
     \<exists>step. parseList_loop n StopDefault RightK SeparatorK OptionalSep callback Invalid P =
               Some (Inr step) \<and>
       (case step of
          Continue Invalid' P' \<Rightarrow> False
        | Break Invalid' P' \<Rightarrow> getKind (Tok P') = RightK
        | Return r RightLoc P' \<Rightarrow> RightLoc = None \<longrightarrow> r)"
proof (induction n arbitrary: P Invalid)
  case 0
  then show ?case by simp
next
  case (Suc n)
  then have fuel: "remaining P \<le> n" by simp
  from body_progress[OF cons sep fuel, of StopDefault RightK OptionalSep Invalid] obtain step where
    b: "parseList_body n StopDefault RightK SeparatorK OptionalSep callback Invalid P =
                  Some (Inr step)"
       "case step of
        Continue Invalid' P' \<Rightarrow> remaining P' < remaining P
      | Break Invalid' P' \<Rightarrow> getKind (Tok P') = RightK
      | Return r RightLoc P' \<Rightarrow> RightLoc = None \<longrightarrow> r"
    by blast
  show ?case
  proof (cases step)
    case (Continue Invalid' P')
    with b(2) fuel have "remaining P' < n" by simp
    from Suc.IH[OF this, of Invalid'] Continue b(1) show ?thesis by (simp add: bindF_def)
  next
    case (Break Invalid' P')
    with b show ?thesis by (simp add: bindF_def)
  next
    case (Return r RightLoc P')
    with b show ?thesis by (simp add: bindF_def)
  qed
qed


lemmas sample_defs = parserOn_def tokenAt_def lex_def eofToken_def sampleSourceMgr_def
lemmas cursor_defs = consumeToken_def consumeIf_def consumeTokenK_def diagnose_def Let_def bindF_def

lemma loop_invalid_sticky:
  "parseList_loop n StopDefault RightK SeparatorK OptionalSep callback True P = Some (Inr s) \<Longrightarrow>
   stepInvalid s"
proof (induction n arbitrary: P s)
  case 0
  then show ?case by simp
next
  case (Suc n)
  from Suc.prems obtain step where
    b: "parseList_body n StopDefault RightK SeparatorK OptionalSep callback True P = Some (Inr step)"
    by (auto simp: bindF_def split: option.splits sum.splits)
  have inv: "stepInvalid step"
    using b
    by (auto simp: parseList_body_def bindF_def Let_def
             split: option.splits sum.splits prod.splits if_splits)
  show ?case
  proof (cases step)
    case (Continue I P')
    with inv have "I" by simp
    with Suc.prems b Continue have
      "parseList_loop n StopDefault RightK SeparatorK OptionalSep callback True P' = Some (Inr s)"
      by (simp add: bindF_def)
    then show ?thesis by (rule Suc.IH)
  next
    case (Break I P')
    with Suc.prems b inv show ?thesis by (auto simp: bindF_def)
  next
    case (Return r RightLoc P')
    with Suc.prems b inv show ?thesis by (auto simp: bindF_def)
  qed
qed

lemma body_guard:
  assumes ls: "leadingSeparators SeparatorK P = Inr P0" and cb: "callback P0 = (r, P1)"
    and nr: "getKind (Tok P1) \<noteq> RightK"
    and ne: "\<not> (getKind (Tok P1) = eof \<and> getText (Tok P1) = '')'')"
    and nsep: "getKind (Tok P1) \<noteq> SeparatorK"
    and same: "getLoc (Tok P1) = getLoc (Tok P0)"
    and fuel: "remaining P1 \<le> n"
  shows "\<exists>P4. skipUntil n RightK SeparatorK StopDefault
               (if \<not> OptionalSep
                then diagnose (getLoc (Tok P1)) expected_separator (separatorText SeparatorK)
                       [fixItInsert (getLocForEndOfToken (SourceMgr P1) (PreviousLoc P1))
                          (separatorText SeparatorK)] P1
                else P1) = Some (Inr P4) \<and>
             remaining P4 \<le> remaining P1 \<and>
             Diags P4 = Diags (if \<not> OptionalSep
                then diagnose (getLoc (Tok P1)) expected_separator (separatorText SeparatorK)
                       [fixItInsert (getLocForEndOfToken (SourceMgr P1) (PreviousLoc P1))
                          (separatorText SeparatorK)] P1
                else P1) \<and>
             parseList_body n StopDefault RightK SeparatorK OptionalSep callback Invalid P =
             (if getKind (Tok P4) = RightK
              then Some (Inr (Break (\<not> OptionalSep \<or> Invalid \<or> r) P4))
              else if getKind (Tok P4) = eof \<or> getKind (Tok P4) = code_complete
              then Some (Inr (Return True None P4))
              else bindF (Some (consumeIf SeparatorK P4)) (\<lambda>(c, P5).
                     Some (Inr (Continue (\<not> OptionalSep \<or> Invalid \<or> r) P5))))"
proof -
  let ?P3 = "if \<not> OptionalSep
                then diagnose (getLoc (Tok P1)) expected_separator (separatorText SeparatorK)
                       [fixItInsert (getLocForEndOfToken (SourceMgr P1) (PreviousLoc P1))
                          (separatorText SeparatorK)] P1
                else P1"
  have "remaining ?P3 \<le> n" using fuel by simp
  from skipUntil_total[OF this, of RightK SeparatorK StopDefault] obtain P4 where
    u: "skipUntil n RightK SeparatorK StopDefault ?P3 = Some (Inr P4)"
       "remaining P4 \<le> remaining ?P3" "Diags P4 = Diags ?P3"
    by blast
  have "remaining ?P3 = remaining P1" by simp
  with u(2) have "remaining P4 \<le> remaining P1" by simp
  moreover have "parseList_body n StopDefault RightK SeparatorK OptionalSep callback Invalid P =
             (if getKind (Tok P4) = RightK
              then Some (Inr (Break (\<not> OptionalSep \<or> Invalid \<or> r) P4))
              else if getKind (Tok P4) = eof \<or> getKind (Tok P4) = code_complete
              then Some (Inr (Return True None P4))
              else bindF (Some (consumeIf SeparatorK P4)) (\<lambda>(c, P5).
                     Some (Inr (Continue (\<not> OptionalSep \<or> Invalid \<or> r) P5))))"
    using same u(1)
    by (simp add: body_missing[where callback=callback, OF ls cb nr ne nsep] Let_def bindF_def)
  ultimately show ?thesis using u(1,3) by blast
qed



lemma consuming_identifierElement: "consuming identifierElement"
  unfolding consuming_def
proof
  fix P
  show "remaining (snd (identifierElement P)) < remaining P \<or>
        remaining (snd (identifierElement P)) = remaining P \<and>
        getLoc (Tok (snd (identifierElement P))) = getLoc (Tok P)"
  proof (cases "getKind (Tok P) = tok_identifier")
    case True
    then have "getKind (Tok P) \<noteq> eof" by simp
    from consumeToken_Inr[OF this] consumeToken_less[of P] True show ?thesis
      by (simp add: identifierElement_def)
  next
    case False
    then show ?thesis by (simp add: identifierElement_def)
  qed
qed

lemma consumeIf_Diags: "consumeIf K P = Inr (b, P') \<Longrightarrow> Diags P' = Diags P"
  by (auto simp: consumeIf_def consumeTokenK_def consumeToken_def Let_def
           split: if_splits prod.splits)

lemma parseList_returns_value:
  assumes cons: "consuming callback" and sep: "SeparatorK = comma \<or> SeparatorK = semi"
    and fuel: "remaining P < n" and cl: "isCloser RightK"
  shows "\<exists>res. parseList n StopDefault RightK LeftLoc SeparatorK OptionalSep ErrorDiag callback P =
                 Some (Inr res)"
proof -
  from cl have ne: "RightK \<noteq> eof" by (auto simp: isCloser_def)
  have close: "\<exists>Loc Q'. consumeTokenK RightK Q = Inr (Loc, Q')" if "getKind (Tok Q) = RightK" for Q
    using that ne consumeToken_Inr[of Q] by (simp add: consumeTokenK_def)
  show ?thesis
  proof (cases "getKind (Tok P) = RightK")
    case True
    from close[OF True] sep True show ?thesis by (auto simp: parseList_def)
  next
    case False
    from loop_terminates[OF cons sep fuel, of StopDefault RightK OptionalSep False] obtain step where
      l: "parseList_loop n StopDefault RightK SeparatorK OptionalSep callback False P = Some (Inr step)"
         "case step of Continue Invalid' P' \<Rightarrow> False | Break Invalid' P' \<Rightarrow> getKind (Tok P') = RightK
            | Return r RightLoc P' \<Rightarrow> RightLoc = None \<longrightarrow> r"
      by blast
    show ?thesis
    proof (cases step)
      case (Continue I P')
      with l(2) show ?thesis by simp
    next
      case (Return r RightLoc P')
      with l(1) False sep show ?thesis by (auto simp: parseList_def bindF_def)
    next
      case (Break I P')
      with l(2) have k: "getKind (Tok P') = RightK" by simp
      from close[OF k] obtain Loc Q' where c: "consumeTokenK RightK P' = Inr (Loc, Q')" by blast
      have "parseMatchingToken RightK ErrorDiag LeftLoc P' = Inr (False, Some Loc, Q')"
        using cl k c by (auto simp: parseMatchingToken_def parseToken_def isCloser_def)
      with l(1) Break False sep show ?thesis by (auto simp: parseList_def bindF_def)
    qed
  qed
qed

text \<open>
  The passes of the loop and the result of \<^verbatim>\<open>parseList\<close>: where the loop stands after
  \<open>k\<close> passes, how it can be left, and what \<^verbatim>\<open>parseList\<close> returns then.
\<close>

lemma after_loop:
  "parseList_after k n D R S Opt cb I P = Some (I', Q) \<Longrightarrow>
   k \<le> n \<and> parseList_loop n D R S Opt cb I P = parseList_loop (n - k) D R S Opt cb I' Q"
proof (induction k arbitrary: n I P)
  case 0
  then show ?case by simp
next
  case (Suc k)
  then obtain m where n: "n = Suc m" by (cases n) simp_all
  from Suc.prems n obtain I1 P1 where
    b: "parseList_body m D R S Opt cb I P = Some (Inr (Continue I1 P1))" and
    a: "parseList_after k m D R S Opt cb I1 P1 = Some (I', Q)"
    by (auto split: option.splits sum.splits listStep.splits)
  from Suc.IH[OF a] b n show ?case by (simp add: bindF_def)
qed





lemma parseList_pass:
  assumes sep: "SeparatorK = comma \<or> SeparatorK = semi" and nr0: "getKind (Tok P) \<noteq> RightK"
    and after: "parseList_after k (Suc (k + m)) StopDefault RightK SeparatorK OptionalSep callback
                  False P = Some (I, Q)"
  shows "parseList (Suc (k + m)) StopDefault RightK LeftLoc SeparatorK OptionalSep ErrorDiag callback P =
     bindF (parseList_loop (Suc m) StopDefault RightK SeparatorK OptionalSep callback I Q)
          (\<lambda>step. case step of
             Return r RightLoc P' \<Rightarrow> Some (Inr (r, RightLoc, P'))
           | Break Invalid P' \<Rightarrow>
               (case parseMatchingToken RightK ErrorDiag LeftLoc P' of
                  Inl e \<Rightarrow> Some (Inl e)
                | Inr (r, RightLoc, P'') \<Rightarrow> Some (Inr (Invalid \<or> r, RightLoc, P'')))
           | Continue Invalid P' \<Rightarrow> None)"
proof -
  from after_loop[OF after] have
    "parseList_loop (Suc (k + m)) StopDefault RightK SeparatorK OptionalSep callback False P =
     parseList_loop (Suc m) StopDefault RightK SeparatorK OptionalSep callback I Q"
    by (simp add: Suc_diff_le)
  with sep nr0 show ?thesis by (simp add: parseList_def)
qed


lemma parseList_pass_invalid:
  assumes sep: "SeparatorK = comma \<or> SeparatorK = semi" and nr0: "getKind (Tok P) \<noteq> RightK"
    and after: "parseList_after k (Suc (k + m)) StopDefault RightK SeparatorK OptionalSep callback
                  False P = Some (I, Q)"
    and body: "parseList_body m StopDefault RightK SeparatorK OptionalSep callback I Q =
                 Some (Inr step)"
    and inv: "stepInvalid step"
    and res: "parseList (Suc (k + m)) StopDefault RightK LeftLoc SeparatorK OptionalSep ErrorDiag
                callback P = Some (Inr (res, RightLoc, P'))"
  shows "res"
proof -
  note pp = parseList_pass[OF sep nr0 after, of LeftLoc ErrorDiag]
  from res pp obtain s where
    l: "parseList_loop (Suc m) StopDefault RightK SeparatorK OptionalSep callback I Q = Some (Inr s)"
    and f: "(case s of
             Return r RightLoc P' \<Rightarrow> Some (Inr (r, RightLoc, P'))
           | Break Invalid P' \<Rightarrow>
               (case parseMatchingToken RightK ErrorDiag LeftLoc P' of
                  Inl e \<Rightarrow> Some (Inl e)
                | Inr (r, RightLoc, P'') \<Rightarrow> Some (Inr (Invalid \<or> r, RightLoc, P'')))
           | Continue Invalid P' \<Rightarrow> None) = Some (Inr (res, RightLoc, P'))"
    by (auto simp: bindF_def split: option.splits sum.splits)
  have "stepInvalid s"
  proof (cases step)
    case (Continue I1 P1)
    with inv have "I1" by simp
    with l body Continue have
      "parseList_loop m StopDefault RightK SeparatorK OptionalSep callback True P1 = Some (Inr s)"
      by (simp add: bindF_def)
    then show ?thesis by (rule loop_invalid_sticky)
  next
    case (Break I1 P1)
    with l body inv show ?thesis by (auto simp: bindF_def)
  next
    case (Return r1 RL P1)
    with l body inv show ?thesis by (auto simp: bindF_def)
  qed
  with f show ?thesis
    by (cases s) (auto split: sum.splits)
qed

section \<open>Properties of the tokenizer entry point\<close>

declare tokenize.simps [simp del] tokenize_loop.simps [simp del] getStringPartTokens.simps [simp del]

lemma foldF_invariant:
  "(\<forall>i a b. i \<in> set is \<longrightarrow> I a \<longrightarrow> f i a = Some (Inr b) \<longrightarrow> I b) \<Longrightarrow>
   I a \<Longrightarrow> foldF f is a = Some (Inr b) \<Longrightarrow> I b"
proof (induction "is" arbitrary: a)
  case Nil
  then show ?case by simp
next
  case (Cons i "is")
  from Cons.prems(3) obtain a' where
    f: "f i a = Some (Inr a')" "foldF f is a' = Some (Inr b)"
    by (auto simp: bindF_def split: option.splits sum.splits)
  have a': "I a'"
    using Cons.prems(1)[rule_format, of i a a'] Cons.prems(2) f(1) by simp
  have rest: "\<forall>j a b. j \<in> set is \<longrightarrow> I a \<longrightarrow> f j a = Some (Inr b) \<longrightarrow> I b"
  proof (intro allI impI)
    fix j a b assume "j \<in> set is" "I a" "f j a = Some (Inr b)"
    then show "I b" using Cons.prems(1)[rule_format, of j a b] by simp
  qed
  show ?case by (rule Cons.IH[OF rest a' f(2)])
qed

lemma foldF_parts:
  assumes step: "\<And>i a b. i \<in> set is \<Longrightarrow> f i a = Some (Inr b) \<Longrightarrow> \<exists>p. b = a @ p \<and> Q i p"
  shows "foldF f is a = Some (Inr b) \<Longrightarrow>
         \<exists>parts. length parts = length is \<and> b = a @ concat parts \<and>
                 (\<forall>j < length is. Q (is ! j) (parts ! j))"
  using step
proof (induction "is" arbitrary: a)
  case Nil
  then show ?case by simp
next
  case (Cons i "is")
  from Cons.prems(1) obtain a' where
    f: "f i a = Some (Inr a')" "foldF f is a' = Some (Inr b)"
    by (auto simp: bindF_def split: option.splits sum.splits)
  from Cons.prems(2)[of i a a'] f(1) obtain p where p: "a' = a @ p" "Q i p" by auto
  from Cons.IH[OF f(2)] Cons.prems(2) obtain parts where
    ps: "length parts = length is" "b = a' @ concat parts"
        "\<forall>j < length is. Q (is ! j) (parts ! j)" by auto
  have "\<forall>j < length (i # is). Q ((i # is) ! j) ((p # parts) ! j)"
    using p(2) ps(3) by (auto simp: nth_Cons split: nat.splits)
  with ps p show ?case
    by (intro exI[of _ "p # parts"]) simp
qed

lemma foldF_all:
  assumes step: "\<And>i a. i \<in> set is \<Longrightarrow> f i a = Some (Inr (a @ [g i]))"
  shows "foldF f is a = Some (Inr (a @ map g is))"
  using step
proof (induction "is" arbitrary: a)
  case Nil
  then show ?case by simp
next
  case (Cons i "is")
  then show ?case by (simp add: bindF_def)
qed

lemma stringPart_literal:
  assumes "i < length Segments" and "segKind (Segments ! i) = Literal"
  shows "stringPart retokenize SM BufID Segments (length Segments) i Toks =
           Some (Inr (Toks @ [literalSegmentToken SM Segments i]))"
proof -
  from assms(1) have li: "(i = length Segments - 1) = (Suc i = length Segments)" by auto
  show ?thesis
    unfolding stringPart_def Let_def literalSegmentToken_def setToken_def li using assms(2)
    by (cases "i = 0"; cases "Suc i = length Segments") simp_all
qed

lemma stringPart_expr:
  assumes "segKind (Segments ! i) \<noteq> Literal"
  shows "stringPart retokenize SM BufID Segments e i Toks =
           bindF (retokenize (getLocOffsetInBuffer SM (segLoc (Segments ! i)) BufID)
                    (getLocOffsetInBuffer SM (segLoc (Segments ! i)) BufID + segLength (Segments ! i)))
             (\<lambda>NewTokens. Some (Inr (Toks @ NewTokens)))"
  using assms by (simp add: stringPart_def Let_def)

lemma getStringPartTokens_unfold:
  "getKind StrTok = string_literal \<Longrightarrow>
   getStringPartTokens n SplitDefault StrTok SM BufID Toks =
     foldF (stringPart
              (\<lambda>Offset EndOffset. tokenize n SplitDefault SM BufID Offset EndOffset True SplitDefault)
              SM BufID (getStringLiteralSegments SM StrTok)
              (length (getStringLiteralSegments SM StrTok)))
       [0..<length (getStringLiteralSegments SM StrTok)] Toks"
  by (simp add: getStringPartTokens.simps Let_def)

lemma getStringPartTokens_parts:
  assumes k: "getKind StrTok = string_literal"
    and r: "getStringPartTokens n SplitDefault StrTok SM BufID Toks = Some (Inr R)"
  shows "\<exists>parts. length parts = length (getStringLiteralSegments SM StrTok) \<and>
           R = Toks @ concat parts \<and>
           (\<forall>i < length (getStringLiteralSegments SM StrTok).
              (segKind (getStringLiteralSegments SM StrTok ! i) = Literal \<longrightarrow>
                 parts ! i = [literalSegmentToken SM (getStringLiteralSegments SM StrTok) i]) \<and>
              (segKind (getStringLiteralSegments SM StrTok ! i) \<noteq> Literal \<longrightarrow>
                 tokenize n SplitDefault SM BufID
                   (getLocOffsetInBuffer SM (segLoc (getStringLiteralSegments SM StrTok ! i)) BufID)
                   (getLocOffsetInBuffer SM (segLoc (getStringLiteralSegments SM StrTok ! i)) BufID +
                      segLength (getStringLiteralSegments SM StrTok ! i))
                   True SplitDefault = Some (Inr (parts ! i))))"
proof -
  let ?S = "getStringLiteralSegments SM StrTok"
  let ?re = "\<lambda>Offset EndOffset. tokenize n SplitDefault SM BufID Offset EndOffset True SplitDefault"
  let ?Q = "\<lambda>i p. (segKind (?S ! i) = Literal \<longrightarrow> p = [literalSegmentToken SM ?S i]) \<and>
              (segKind (?S ! i) \<noteq> Literal \<longrightarrow>
                 ?re (getLocOffsetInBuffer SM (segLoc (?S ! i)) BufID)
                   (getLocOffsetInBuffer SM (segLoc (?S ! i)) BufID + segLength (?S ! i)) =
                 Some (Inr p))"
  let ?f = "stringPart ?re SM BufID ?S (length ?S)"
  from r have fr: "foldF ?f [0..<length ?S] Toks = Some (Inr R)"
    by (simp only: getStringPartTokens_unfold[OF k])
  have step: "\<exists>p. b = a @ p \<and> ?Q i p"
    if "i \<in> set [0..<length ?S]" and "?f i a = Some (Inr b)" for i a b
  proof (cases "segKind (?S ! i) = Literal")
    case True
    from that(1) have "i < length ?S" by simp
    from stringPart_literal[OF this True, of ?re SM BufID a] that(2) True show ?thesis
      by simp
  next
    case False
    from that(2) show ?thesis
      unfolding stringPart_expr[OF False] using False
      by (auto simp: bindF_def split: option.splits sum.splits)
  qed
  from foldF_parts[of "[0..<length ?S]" ?f ?Q, OF step fr]
  show ?thesis by auto
qed

lemma getStringPartTokens_literals:
  assumes k: "getKind StrTok = string_literal"
    and l: "\<forall>i < length (getStringLiteralSegments SM StrTok).
               segKind (getStringLiteralSegments SM StrTok ! i) = Literal"
  shows "getStringPartTokens n SplitDefault StrTok SM BufID Toks =
           Some (Inr (Toks @ map (literalSegmentToken SM (getStringLiteralSegments SM StrTok))
                              [0..<length (getStringLiteralSegments SM StrTok)]))"
proof -
  let ?S = "getStringLiteralSegments SM StrTok"
  let ?re = "\<lambda>Offset EndOffset. tokenize n SplitDefault SM BufID Offset EndOffset True SplitDefault"
  let ?f = "stringPart ?re SM BufID ?S (length ?S)"
  have step: "?f i a = Some (Inr (a @ [literalSegmentToken SM ?S i]))"
    if "i \<in> set [0..<length ?S]" for i a
  proof -
    from that have i: "i < length ?S" by simp
    with l have lit: "segKind (?S ! i) = Literal" by simp
    from stringPart_literal[OF i lit] show ?thesis .
  qed
  have "foldF ?f [0..<length ?S] Toks =
          Some (Inr (Toks @ map (literalSegmentToken SM ?S) [0..<length ?S]))"
    by (rule foldF_all[of "[0..<length ?S]" ?f "literalSegmentToken SM ?S", OF step])
  then show ?thesis by (simp only: getStringPartTokens_unfold[OF k])
qed


lemma noEof_simps [simp]:
  "noEof []" "noEof (t # ts) = (getKind t \<noteq> eof \<and> noEof ts)"
  "noEof (xs @ ys) = (noEof xs \<and> noEof ys)"
  by (simp_all add: noEof_def)

lemma noEof_last: "noEof ts \<Longrightarrow> ts \<noteq> [] \<Longrightarrow> getKind (last ts) \<noteq> eof"
  by (induction ts) (auto split: if_splits)

lemma noEof_butlast: "noEof ts \<Longrightarrow> noEof (butlast ts)"
  by (induction ts) auto

lemma stringPart_noEof:
  assumes T: "\<forall>Off End R. retokenize Off End = Some (Inr R) \<longrightarrow> noEof R"
    and a: "noEof a" and r: "stringPart retokenize SM BufID Segments e i a = Some (Inr b)"
  shows "noEof b"
proof (cases "segKind (Segments ! i) = Literal")
  case True
  with r obtain Loc Text where "b = a @ [setToken string_literal Loc Text]"
    by (auto simp: stringPart_def Let_def)
  with a show ?thesis by (simp add: setToken_def)
next
  case False
  from r obtain New where
    n: "retokenize (getLocOffsetInBuffer SM (segLoc (Segments ! i)) BufID)
          (getLocOffsetInBuffer SM (segLoc (Segments ! i)) BufID + segLength (Segments ! i)) =
        Some (Inr New)" "b = a @ New"
    unfolding stringPart_expr[OF False]
    by (auto simp: bindF_def split: option.splits sum.splits)
  from T n(1) have "noEof New" by blast
  with a n(2) show ?thesis by simp
qed

lemma getStringPartTokens_noEof:
  assumes T: "\<forall>Off End R. tokenize n D SM B Off End True D = Some (Inr R) \<longrightarrow> noEof R"
    and a: "noEof Toks" and r: "getStringPartTokens n D StrTok SM B Toks = Some (Inr R)"
  shows "noEof R"
proof (cases "getKind StrTok = string_literal")
  case False
  with r show ?thesis by (simp add: getStringPartTokens.simps)
next
  case True
  let ?S = "getStringLiteralSegments SM StrTok"
  let ?re = "\<lambda>Offset EndOffset. tokenize n D SM B Offset EndOffset True D"
  from r have fr: "foldF (stringPart ?re SM B ?S (length ?S)) [0..<length ?S] Toks = Some (Inr R)"
    by (simp only: getStringPartTokens_unfold[OF True])
  have step: "\<forall>i a b. i \<in> set [0..<length ?S] \<longrightarrow> noEof a \<longrightarrow>
                stringPart ?re SM B ?S (length ?S) i a = Some (Inr b) \<longrightarrow> noEof b"
    using stringPart_noEof[of ?re, OF T] by blast
  from foldF_invariant[of "[0..<length ?S]" noEof "stringPart ?re SM B ?S (length ?S)", OF step a fr]
  show ?thesis .
qed

lemma tokenize_loop_noEof:
  "(\<forall>m StrTok Toks R. m < n \<longrightarrow> noEof Toks \<longrightarrow>
        getStringPartTokens m D StrTok SM B Toks = Some (Inr R) \<longrightarrow> noEof R) \<Longrightarrow>
   noEof Tokens \<Longrightarrow> tokenize_loop n D SM B S Lx Tokens = Some (Inr R) \<Longrightarrow>
   R \<noteq> [] \<and> noEof (butlast R)"
proof (induction n arbitrary: Lx Tokens)
  case 0
  then show ?case by (simp add: tokenize_loop.simps)
next
  case (Suc n)
  have G: "\<forall>m StrTok Toks R. m < n \<longrightarrow> noEof Toks \<longrightarrow>
        getStringPartTokens m D StrTok SM B Toks = Some (Inr R) \<longrightarrow> noEof R"
  proof (intro allI impI)
    fix m StrTok Toks R
    assume "m < n" "noEof Toks" "getStringPartTokens m D StrTok SM B Toks = Some (Inr R)"
    then show "noEof R" using Suc.prems(1)[rule_format, of m Toks StrTok R] by simp
  qed
  obtain t Lx' where lx: "lex Lx = (t, Lx')" by (cases "lex Lx")
  let ?first = "if getKind t = string_literal \<and> S
                 then getStringPartTokens n D t SM B Tokens
                 else Some (Inr (Tokens @ [t]))"
  from Suc.prems(3) lx obtain Tokens' where
    f: "?first = Some (Inr Tokens')"
    and rest: "(if Tokens' = [] then Some (Inl EmptyVectorBack)
               else if getKind (last Tokens') \<noteq> eof
               then tokenize_loop n D SM B S Lx' Tokens'
               else Some (Inr Tokens')) = Some (Inr R)"
    by (auto simp: tokenize_loop.simps bindF_def split: option.splits sum.splits)
  from rest have ne: "Tokens' \<noteq> []" by (auto split: if_splits)
  show ?case
  proof (cases "getKind t = string_literal \<and> S")
    case True
    with f have "getStringPartTokens n D t SM B Tokens = Some (Inr Tokens')" by simp
    with Suc.prems(1)[rule_format, of n Tokens t Tokens'] Suc.prems(2)
    have ne': "noEof Tokens'" by simp
    from noEof_last[OF ne' ne] rest ne have "tokenize_loop n D SM B S Lx' Tokens' = Some (Inr R)"
      by simp
    from Suc.IH[OF G ne' this] show ?thesis .
  next
    case False
    with f have T': "Tokens' = Tokens @ [t]" by auto
    show ?thesis
    proof (cases "getKind t = eof")
      case True
      with rest T' have "R = Tokens @ [t]" by simp
      with Suc.prems(2) show ?thesis by simp
    next
      case nf: False
      with rest T' have l: "tokenize_loop n D SM B S Lx' (Tokens @ [t]) = Some (Inr R)" by simp
      from nf Suc.prems(2) have "noEof (Tokens @ [t])" by simp
      from Suc.IH[OF G this l] show ?thesis .
    qed
  qed
qed

lemma tokenize_noEof_aux:
  "(\<forall>D SM B Off End K S R. tokenize n D SM B Off End K S = Some (Inr R) \<longrightarrow> noEof R) \<and>
   (\<forall>D SM B StrTok Toks R. noEof Toks \<longrightarrow>
       getStringPartTokens n D StrTok SM B Toks = Some (Inr R) \<longrightarrow> noEof R)"
proof (induction n rule: less_induct)
  case (less n)
  have T: "\<forall>D SM B Off End K S R. tokenize n D SM B Off End K S = Some (Inr R) \<longrightarrow> noEof R"
  proof (intro allI impI)
    fix D SM B Off End K S R
    assume t: "tokenize n D SM B Off End K S = Some (Inr R)"
    then obtain m where n: "n = Suc m" by (cases n) (simp_all add: tokenize.simps)
    from t obtain Lx Tokens where
      l: "tokenize_loop m D SM B S Lx [] = Some (Inr Tokens)" "R = butlast Tokens"
      unfolding n
      by (auto simp: tokenize.simps Let_def bindF_def split: option.splits sum.splits)
    have G: "\<forall>k StrTok Toks R. k < m \<longrightarrow> noEof Toks \<longrightarrow>
        getStringPartTokens k D StrTok SM B Toks = Some (Inr R) \<longrightarrow> noEof R"
    proof (intro allI impI)
      fix k StrTok Toks R
      assume k: "k < m" and a: "noEof Toks"
        and g: "getStringPartTokens k D StrTok SM B Toks = Some (Inr R)"
      from k n have "k < n" by simp
      from less.IH[OF this] a g show "noEof R" by blast
    qed
    from tokenize_loop_noEof[OF G _ l(1)] l(2) show "noEof R" by simp
  qed
  have "\<forall>D SM B StrTok Toks R. noEof Toks \<longrightarrow>
       getStringPartTokens n D StrTok SM B Toks = Some (Inr R) \<longrightarrow> noEof R"
  proof (intro allI impI)
    fix D SM B StrTok Toks R
    assume a: "noEof Toks" and g: "getStringPartTokens n D StrTok SM B Toks = Some (Inr R)"
    from T have "\<forall>Off End R. tokenize n D SM B Off End True D = Some (Inr R) \<longrightarrow> noEof R"
      by simp
    from getStringPartTokens_noEof[OF this a g] show "noEof R" .
  qed
  with T show ?case by (rule conjI)
qed

lemma tokenize_noEof:
  "tokenize n D SM B Off End K S = Some (Inr R) \<Longrightarrow> noEof R"
  using tokenize_noEof_aux by blast

lemma tokenize_whole_buffer:
  "tokenize n D SM B 0 0 K S = tokenize n D SM B 0 (of_nat (getBufferSize SM B)) K S"
  by (cases n) (simp_all add: tokenize.simps Let_def)

lemma tokenize_loop_plain:
  "length (pending Lx) < n \<Longrightarrow>
   \<exists>e. getKind e = eof \<and>
       tokenize_loop n D SM B False Lx Tokens =
         Some (Inr (Tokens @ takeWhile (\<lambda>t. getKind t \<noteq> eof) (pending Lx) @ [e]))"
proof (induction n arbitrary: Lx Tokens)
  case 0
  then show ?case by simp
next
  case (Suc n)
  show ?case
  proof (cases "pending Lx")
    case Nil
    then have "tokenize_loop (Suc n) D SM B False Lx Tokens = Some (Inr (Tokens @ [eofToken Lx]))"
      by (simp add: tokenize_loop.simps lex_def bindF_def eofToken_def)
    with Nil show ?thesis by (auto simp: eofToken_def)
  next
    case (Cons t ts)
    show ?thesis
    proof (cases "getKind t = eof")
      case True
      with Cons have "tokenize_loop (Suc n) D SM B False Lx Tokens = Some (Inr (Tokens @ [t]))"
        by (simp add: tokenize_loop.simps lex_def bindF_def)
      with Cons True show ?thesis by auto
    next
      case False
      with Cons have s: "tokenize_loop (Suc n) D SM B False Lx Tokens =
                        tokenize_loop n D SM B False (Lx\<lparr>pending := ts\<rparr>) (Tokens @ [t])"
        by (simp add: tokenize_loop.simps lex_def bindF_def)
      from Suc.prems Cons have "length (pending (Lx\<lparr>pending := ts\<rparr>)) < n" by simp
      from Suc.IH[OF this, of "Tokens @ [t]"] s Cons False show ?thesis by auto
    qed
  qed
qed

lemma tokenize_plain:
  assumes "length (pending (newLexer SM B False K
             (Some (Off, if Off = 0 \<and> End = 0 then of_nat (getBufferSize SM B) else End)))) + 2 \<le> n"
  shows "tokenize n D SM B Off End K False =
           Some (Inr (takeWhile (\<lambda>t. getKind t \<noteq> eof)
             (pending (newLexer SM B False K
               (Some (Off, if Off = 0 \<and> End = 0 then of_nat (getBufferSize SM B) else End))))))"
proof -
  let ?Lx = "newLexer SM B False K
               (Some (Off, if Off = 0 \<and> End = 0 then of_nat (getBufferSize SM B) else End))"
  from assms obtain m where n: "n = Suc m" "length (pending ?Lx) < m"
    by (cases n) auto
  from tokenize_loop_plain[OF n(2), of D SM B "[]"] obtain e where
    "tokenize_loop m D SM B False ?Lx [] =
       Some (Inr (takeWhile (\<lambda>t. getKind t \<noteq> eof) (pending ?Lx) @ [e]))"
    by auto
  then show ?thesis
    unfolding n(1) by (simp add: tokenize.simps Let_def bindF_def butlast_append)
qed

lemmas tok_eval = tokenize.simps tokenize_loop.simps getStringPartTokens.simps stringPart_def
  sampleBufferMgr_def sampleStringToken_def sampleLiteral_def lex_def eofToken_def bindF_def
  Let_def setToken_def StringRef_def

section \<open>The claims about the cursor and the recovery engine\<close>

text \<open>
  Claim C9. \<^verbatim>\<open>consumeToken\<close> requires that the current token is not eof. When it is not,
  the call returns the location of the current token, the lexer hands out its next token,
  which becomes the current one, and \<^verbatim>\<open>PreviousLoc\<close> is that returned location; the
  diagnostics are as they were and fewer tokens remain. When the current token is eof,
  the assertion \<^verbatim>\<open>"Lexing past eof!"\<close> fails: the call ends in a fault, with no state
  and no diagnostic.
\<close>

theorem consumeToken_contract:
  "(getKind (Tok P) \<noteq> eof \<longrightarrow>
      (\<exists>P'. consumeToken P = Inr (getLoc (Tok P), P') \<and>
            Tok P' = fst (lex (L P)) \<and> L P' = snd (lex (L P)) \<and>
            PreviousLoc P' = getLoc (Tok P) \<and> Diags P' = Diags P \<and>
            SourceMgr P' = SourceMgr P \<and> remaining P' < remaining P)) \<and>
   (getKind (Tok P) = eof \<longrightarrow> consumeToken P = Inl (AssertionFailed ''Lexing past eof!''))"
proof (intro conjI impI)
  assume ne: "getKind (Tok P) \<noteq> eof"
  let ?P' = "P\<lparr>Tok := fst (lex (L P)), L := snd (lex (L P)), PreviousLoc := getLoc (Tok P)\<rparr>"
  have c: "consumeToken P = Inr (getLoc (Tok P), ?P')" by (rule consumeToken_Inr[OF ne])
  from consumeToken_less[OF c] have "remaining ?P' < remaining P" by simp
  with c show "\<exists>P'. consumeToken P = Inr (getLoc (Tok P), P') \<and>
            Tok P' = fst (lex (L P)) \<and> L P' = snd (lex (L P)) \<and>
            PreviousLoc P' = getLoc (Tok P) \<and> Diags P' = Diags P \<and>
            SourceMgr P' = SourceMgr P \<and> remaining P' < remaining P"
    by simp
next
  assume "getKind (Tok P) = eof"
  then show "consumeToken P = Inl (AssertionFailed ''Lexing past eof!'')"
    by (simp add: consumeToken_def)
qed

theorem consumeToken_contract_witness:
  "consumeToken (parserOn [tokenAt tok_identifier ''a'' 1, tokenAt comma '','' 2] [] 3) =
     Inr (1, \<lparr>Tok = tokenAt comma '','' 2, L = \<lparr>pending = [], eofText = [], eofLoc = 3\<rparr>,
              PreviousLoc = 1, Diags = [], SourceMgr = sampleSourceMgr\<rparr>) \<and>
   consumeToken (parserOn [] [] 3) = Inl (AssertionFailed ''Lexing past eof!'')"
  using consumeToken_contract[of "parserOn [tokenAt tok_identifier ''a'' 1, tokenAt comma '','' 2] [] 3"]
        consumeToken_contract[of "parserOn [] [] 3"]
  by (auto simp: parserOn_def tokenAt_def lex_def eofToken_def)

text \<open>
  Claim C5, as amended. With fuel for as many passes through its loop as tokens remain,
  \<^verbatim>\<open>skipUntil(T1, T2, StopAtCodeComplete)\<close> returns; it emits no diagnostic and no more
  tokens remain than before. When both targets are \<open>unknown\<close> the state is unchanged,
  whatever the current token. Otherwise the current token on return is eof, of kind
  \<open>T1\<close> or \<open>T2\<close>, or a code-completion marker when stopping there was requested.
\<close>

theorem skipUntil_terminates:
  assumes "remaining P \<le> n"
  shows "\<exists>P'. skipUntil n T1 T2 S P = Some (Inr P') \<and> remaining P' \<le> remaining P \<and>
              Diags P' = Diags P \<and>
              (if T1 = unknown \<and> T2 = unknown then P' = P
               else getKind (Tok P') = eof \<or> getKind (Tok P') = T1 \<or> getKind (Tok P') = T2 \<or>
                    (S \<and> getKind (Tok P') = code_complete))"
  using skipUntil_total[OF assms, of T1 T2 S] by (simp add: skipPost_def)

theorem skipUntil_terminates_witness:
  "remaining (parserOn [tokenAt l_paren ''('' 1, tokenAt comma '','' 2, tokenAt r_paren '')'' 3,
                        tokenAt tok_identifier ''a'' 4, tokenAt comma '','' 5] [] 6) \<le> 5 \<and>
   (\<exists>P'. skipUntil 5 r_square comma False
            (parserOn [tokenAt l_paren ''('' 1, tokenAt comma '','' 2, tokenAt r_paren '')'' 3,
                       tokenAt tok_identifier ''a'' 4, tokenAt comma '','' 5] [] 6) = Some (Inr P') \<and>
          getKind (Tok P') = comma \<and> getLoc (Tok P') = 5)"
  using skipUntil_terminates[of "parserOn [tokenAt l_paren ''('' 1, tokenAt comma '','' 2,
          tokenAt r_paren '')'' 3, tokenAt tok_identifier ''a'' 4, tokenAt comma '','' 5] [] 6"
          5 r_square comma False]
  by (simp add: parserOn_def tokenAt_def lex_def eofToken_def remaining_def upcoming_def
        skipUntil.simps skipSingle.simps bindF_def consumeToken_def consumeIf_def
        consumeTokenK_def Let_def)

text \<open>
  Claim C5 as stated fails for the sentinel pair: \<^verbatim>\<open>skipUntil(unknown, unknown)\<close> returns
  at once, here on an identifier, which is neither eof, nor of a requested kind, nor a
  code-completion marker.
\<close>

theorem skipUntil_sentinel_counterexample:
  "skipUntil 1 unknown unknown False (parserOn [tokenAt tok_identifier ''a'' 1] [] 2) =
     Some (Inr (parserOn [tokenAt tok_identifier ''a'' 1] [] 2)) \<and>
   getKind (Tok (parserOn [tokenAt tok_identifier ''a'' 1] [] 2)) = tok_identifier \<and>
   tok_identifier \<noteq> eof \<and> tok_identifier \<noteq> unknown \<and> tok_identifier \<noteq> code_complete"
  by (simp add: skipUntil.simps parserOn_def tokenAt_def lex_def)

text \<open>
  Claim C4, as amended. Let the current token be an opening bracket and let no token
  before eof be of kind \<open>unknown\<close>. With fuel for as many passes as tokens follow the
  opener, \<^verbatim>\<open>skipSingle\<close> returns, and the tokens left from the cursor on are those that
  the explicit stack of expected closers leaves, started with the closer of that opener:
  the opener and everything up to and including the closer that brings the nesting back
  to zero are consumed, however deep the nesting, unless the input ends first (the cursor
  is then at eof) or, when \<^verbatim>\<open>StopAtCodeComplete\<close> is set, a code-completion marker comes
  first (the cursor is then at the marker and no closer is consumed for the brackets
  still open).
\<close>

theorem skipSingle_bracket_balance:
  assumes "isOpener (getKind (Tok P))" and "plainTokens (pending (L P))"
    and "length (pending (L P)) \<le> n"
  shows "\<exists>P'. skipSingle n S P = Some (Inr P') \<and>
              upcoming P' = leftOver (skipToClose S [closerOf (getKind (Tok P))] (pending (L P))) \<and>
              (case skipToClose S [closerOf (getKind (Tok P))] (pending (L P)) of
                 Closed r \<Rightarrow> True
               | AtMarker r \<Rightarrow> S \<and> getKind (Tok P') = code_complete
               | AtEof \<Rightarrow> getKind (Tok P') = eof)"
proof -
  from assms(1) have ne: "getKind (Tok P) \<noteq> eof" by (auto simp: isOpener_def)
  then have up: "upcoming P = Tok P # pending (L P)" by (simp add: upcoming_def)
  from skipSingle_opener_refines[OF up assms, of S] obtain P' where
    s: "skipSingle n S P = Some (Inr P')"
       "upcoming P' = leftOver (skipToClose S [closerOf (getKind (Tok P))] (pending (L P)))"
    by blast
  have "case skipToClose S [closerOf (getKind (Tok P))] (pending (L P)) of
          Closed r \<Rightarrow> True
        | AtMarker r \<Rightarrow> S \<and> getKind (Tok P') = code_complete
        | AtEof \<Rightarrow> getKind (Tok P') = eof"
  proof (cases "skipToClose S [closerOf (getKind (Tok P))] (pending (L P))")
    case (Closed r)
    then show ?thesis by simp
  next
    case (AtMarker r)
    from skipToClose_AtMarker[OF this] obtain t r' where
      m: "S" "r = t # r'" "getKind t = code_complete" by blast
    from s(2) AtMarker m have "upcoming P' = t # r'" by simp
    then have "Tok P' = t" using upcoming_Cons by blast
    with AtMarker m show ?thesis by simp
  next
    case AtEof
    with s(2) have "upcoming P' = []" by simp
    then have "getKind (Tok P') = eof" by (simp add: upcoming_Nil)
    with AtEof show ?thesis by simp
  qed
  with s show ?thesis by blast
qed

theorem skipSingle_bracket_balance_witness:
  "\<exists>P'. skipSingle 7 False
          (parserOn [tokenAt l_paren ''('' 1, tokenAt l_square ''['' 2, tokenAt r_paren '')'' 3,
                     tokenAt l_brace ''{'' 4, tokenAt r_brace ''}'' 5, tokenAt r_square '']'' 6,
                     tokenAt r_paren '')'' 7, tokenAt comma '','' 8] [] 9) = Some (Inr P') \<and>
        upcoming P' = [tokenAt comma '','' 8]"
  using skipSingle_bracket_balance[of
          "parserOn [tokenAt l_paren ''('' 1, tokenAt l_square ''['' 2, tokenAt r_paren '')'' 3,
                     tokenAt l_brace ''{'' 4, tokenAt r_brace ''}'' 5, tokenAt r_square '']'' 6,
                     tokenAt r_paren '')'' 7, tokenAt comma '','' 8] [] 9" 7 False]
  by (simp add: parserOn_def tokenAt_def lex_def isOpener_def plainTokens_def)

text \<open>
  Claim C4 as stated fails when stopping at a code-completion marker is requested: on
  \<^verbatim>\<open>( <marker> ) ,\<close> the call consumes the opener and returns at the marker; the
  closing parenthesis is not consumed and eof is not reached.
\<close>

theorem skipSingle_marker_counterexample:
  "\<exists>P'. skipSingle 3 True
          (parserOn [tokenAt l_paren ''('' 1, tokenAt code_complete [] 2, tokenAt r_paren '')'' 3,
                     tokenAt comma '','' 4] [] 5) = Some (Inr P') \<and>
        Tok P' = tokenAt code_complete [] 2 \<and>
        pending (L P') = [tokenAt r_paren '')'' 3, tokenAt comma '','' 4]"
  by (simp add: parserOn_def tokenAt_def lex_def skipUntil.simps skipSingle.simps bindF_def
        consumeToken_def consumeIf_def consumeTokenK_def Let_def)
section \<open>The claims about the list parser\<close>







text \<open>
  Claim C6, as amended. Take a run of \<^verbatim>\<open>parseList\<close> from \<open>P\<close> with a mandatory separator,
  and the pass that \<open>k\<close> passes which went round have reached. When after the element
  callback of that pass the current token is neither the close delimiter nor a separator
  (an eof token spelled \<^verbatim>\<open>")"\<close> aside, which line 444 takes before the separator is looked
  for), the pass adds exactly one diagnostic to those the callback left:
  \<open>expected_separator\<close> at the current token, with a fix-it that inserts the separator
  character at the end of the previous token. The pass ends with the flag \<^verbatim>\<open>Invalid\<close> set,
  the flag stays set in every later pass, and the result of \<^verbatim>\<open>parseList\<close> is invalid:
  whatever it returns, it returns \<^verbatim>\<open>true\<close>, and it does return when the callback is
  consuming, the close delimiter is \<^verbatim>\<open>)\<close>, \<^verbatim>\<open>]\<close> or \<^verbatim>\<open>}\<close> and the fuel suffices. When the
  cursor has moved since the location recorded before the callback, the loop goes round
  with the cursor where the callback left it.
\<close>

theorem parseList_missing_separator:
  assumes sep: "SeparatorK = comma \<or> SeparatorK = semi"
    and nr0: "getKind (Tok P) \<noteq> RightK"
    and after: "parseList_after k (Suc (k + m)) StopDefault RightK SeparatorK False callback
                  False P = Some (Invalid, Q)"
    and ls: "leadingSeparators SeparatorK Q = Inr Q0" and cb: "callback Q0 = (r, Q1)"
    and nr: "getKind (Tok Q1) \<noteq> RightK"
    and ne: "\<not> (getKind (Tok Q1) = eof \<and> getText (Tok Q1) = '')'')"
    and nsep: "getKind (Tok Q1) \<noteq> SeparatorK"
    and fuel: "remaining Q1 \<le> m"
  shows "(\<forall>J. \<exists>step. parseList_body m StopDefault RightK SeparatorK False callback J Q =
                  Some (Inr step) \<and>
           Diags (stepParser step) =
             Diags Q1 @ [\<lparr>diagLoc = getLoc (Tok Q1), diagID = expected_separator,
                          diagArg = separatorText SeparatorK,
                          fixIts = [fixItInsert (getLocForEndOfToken (SourceMgr Q1) (PreviousLoc Q1))
                                      (separatorText SeparatorK)]\<rparr>] \<and>
           stepInvalid step \<and>
           (getLoc (Tok Q1) \<noteq> getLoc (Tok Q0) \<longrightarrow>
              (\<exists>P'. step = Continue True P' \<and> Tok P' = Tok Q1 \<and> L P' = L Q1))) \<and>
         (\<forall>res RightLoc P'.
            parseList (Suc (k + m)) StopDefault RightK LeftLoc SeparatorK False ErrorDiag callback P =
              Some (Inr (res, RightLoc, P')) \<longrightarrow> res) \<and>
         (consuming callback \<and> isCloser RightK \<and> remaining P \<le> k + m \<longrightarrow>
            (\<exists>RightLoc P'.
               parseList (Suc (k + m)) StopDefault RightK LeftLoc SeparatorK False ErrorDiag
                 callback P = Some (Inr (True, RightLoc, P')))) \<and>
         (\<forall>n Opt S s. parseList_loop n StopDefault RightK SeparatorK Opt callback True S =
                         Some (Inr s) \<longrightarrow> stepInvalid s)"
proof -
  let ?d = "\<lparr>diagLoc = getLoc (Tok Q1), diagID = expected_separator,
             diagArg = separatorText SeparatorK,
             fixIts = [fixItInsert (getLocForEndOfToken (SourceMgr Q1) (PreviousLoc Q1))
                         (separatorText SeparatorK)]\<rparr>"
  let ?P3 = "diagnose (getLoc (Tok Q1)) expected_separator (separatorText SeparatorK)
               [fixItInsert (getLocForEndOfToken (SourceMgr Q1) (PreviousLoc Q1))
                  (separatorText SeparatorK)] Q1"
  have d3: "Diags ?P3 = Diags Q1 @ [?d]" by (simp add: diagnose_def)
  from sep have se: "SeparatorK \<noteq> eof" by auto
  have pass: "\<exists>step. parseList_body m StopDefault RightK SeparatorK False callback J Q =
                  Some (Inr step) \<and>
           Diags (stepParser step) = Diags Q1 @ [?d] \<and>
           stepInvalid step \<and>
           (getLoc (Tok Q1) \<noteq> getLoc (Tok Q0) \<longrightarrow>
              (\<exists>P'. step = Continue True P' \<and> Tok P' = Tok Q1 \<and> L P' = L Q1))" for J
  proof -
    note bm = body_missing[where callback=callback, OF ls cb nr ne nsep, of m StopDefault False J]
    show ?thesis
    proof (cases "getLoc (Tok Q1) = getLoc (Tok Q0)")
      case False
      then have "parseList_body m StopDefault RightK SeparatorK False callback J Q =
                   Some (Inr (Continue True ?P3))"
        by (simp add: bm Let_def)
      with d3 False show ?thesis by (simp add: diagnose_def)
    next
      case True
      from body_guard[where callback=callback, OF ls cb nr ne nsep True fuel,
             of StopDefault False J]
      obtain P4 where
        g: "Diags P4 = Diags ?P3"
           "parseList_body m StopDefault RightK SeparatorK False callback J Q =
               (if getKind (Tok P4) = RightK
                then Some (Inr (Break True P4))
                else if getKind (Tok P4) = eof \<or> getKind (Tok P4) = code_complete
                then Some (Inr (Return True None P4))
                else bindF (Some (consumeIf SeparatorK P4)) (\<lambda>(c, P5).
                       Some (Inr (Continue True P5))))"
        by auto
      from consumeIf_le[OF se, of P4] obtain b P5 where
        c: "consumeIf SeparatorK P4 = Inr (b, P5)" "Diags P5 = Diags P4" by blast
      from g c d3 True show ?thesis
        by (auto simp: bindF_def)
    qed
  qed
  have flag: "res"
    if "parseList (Suc (k + m)) StopDefault RightK LeftLoc SeparatorK False ErrorDiag callback P =
          Some (Inr (res, RightLoc, P'))" for res RightLoc P'
  proof -
    from pass[of Invalid] obtain step where
      b: "parseList_body m StopDefault RightK SeparatorK False callback Invalid Q = Some (Inr step)"
      and i: "stepInvalid step" by blast
    from parseList_pass_invalid[OF sep nr0 after b i that] show ?thesis .
  qed
  have total: "\<exists>RightLoc P'.
               parseList (Suc (k + m)) StopDefault RightK LeftLoc SeparatorK False ErrorDiag
                 callback P = Some (Inr (True, RightLoc, P'))"
    if t: "consuming callback \<and> isCloser RightK \<and> remaining P \<le> k + m"
  proof -
    from t have "remaining P < Suc (k + m)" by simp
    from parseList_returns_value[OF _ sep this, of callback RightK StopDefault LeftLoc False ErrorDiag] t
    obtain res RightLoc P' where
      p: "parseList (Suc (k + m)) StopDefault RightK LeftLoc SeparatorK False ErrorDiag callback P =
            Some (Inr (res, RightLoc, P'))"
      by (metis prod_cases3)
    from flag[OF p] p show ?thesis by auto
  qed
  have sticky: "\<forall>n Opt S s. parseList_loop n StopDefault RightK SeparatorK Opt callback True S =
                           Some (Inr s) \<longrightarrow> stepInvalid s"
    using loop_invalid_sticky by blast
  from pass flag total sticky show ?thesis by blast
qed

text \<open>
  The list \<^verbatim>\<open>a , b c , d )\<close> of section 8 of the specification, with a mandatory comma.
  The first pass goes round on \<^verbatim>\<open>a ,\<close>; the second finds \<^verbatim>\<open>c\<close> after \<^verbatim>\<open>b\<close>. The parse
  returns an invalid result with the location of \<^verbatim>\<open>)\<close> and one diagnostic, at \<^verbatim>\<open>c\<close>,
  whose fix-it inserts a comma at the end of \<^verbatim>\<open>b\<close>.
\<close>

theorem parseList_missing_separator_witness:
  "(\<exists>step. parseList_body 6 False r_paren comma False identifierElement False
            \<lparr>Tok = tokenAt tok_identifier ''b'' 4,
             L = \<lparr>pending = [tokenAt tok_identifier ''c'' 6, tokenAt comma '','' 7,
                             tokenAt tok_identifier ''d'' 9, tokenAt r_paren '')'' 10],
                  eofText = [], eofLoc = 11\<rparr>,
             PreviousLoc = 2, Diags = [], SourceMgr = sampleSourceMgr\<rparr> = Some (Inr step) \<and>
          Diags (stepParser step) =
            [\<lparr>diagLoc = 6, diagID = expected_separator, diagArg = '','',
              fixIts = [fixItInsert 5 '','']\<rparr>] \<and>
          stepInvalid step \<and>
          (\<exists>P'. step = Continue True P' \<and> Tok P' = tokenAt tok_identifier ''c'' 6)) \<and>
   (\<exists>RightLoc P'.
      parseList 8 False r_paren 0 comma False (caller_diag 0) identifierElement
        (parserOn [tokenAt tok_identifier ''a'' 1, tokenAt comma '','' 2, tokenAt tok_identifier ''b'' 4,
                   tokenAt tok_identifier ''c'' 6, tokenAt comma '','' 7, tokenAt tok_identifier ''d'' 9,
                   tokenAt r_paren '')'' 10] [] 11) = Some (Inr (True, RightLoc, P'))) \<and>
   parseList 8 False r_paren 0 comma False (caller_diag 0) identifierElement
     (parserOn [tokenAt tok_identifier ''a'' 1, tokenAt comma '','' 2, tokenAt tok_identifier ''b'' 4,
                tokenAt tok_identifier ''c'' 6, tokenAt comma '','' 7, tokenAt tok_identifier ''d'' 9,
                tokenAt r_paren '')'' 10] [] 11) =
   Some (Inr (True, Some 10,
     \<lparr>Tok = \<lparr>getKind = eof, getText = [], getLoc = 11\<rparr>,
      L = \<lparr>pending = [], eofText = [], eofLoc = 11\<rparr>,
      PreviousLoc = 10,
      Diags = [\<lparr>diagLoc = 6, diagID = expected_separator, diagArg = '','',
                fixIts = [fixItInsert 5 '','']\<rparr>],
      SourceMgr = sampleSourceMgr\<rparr>))"
proof -
  let ?P = "parserOn [tokenAt tok_identifier ''a'' 1, tokenAt comma '','' 2, tokenAt tok_identifier ''b'' 4,
                tokenAt tok_identifier ''c'' 6, tokenAt comma '','' 7, tokenAt tok_identifier ''d'' 9,
                tokenAt r_paren '')'' 10] [] 11"
  let ?Q = "\<lparr>Tok = tokenAt tok_identifier ''b'' 4,
             L = \<lparr>pending = [tokenAt tok_identifier ''c'' 6, tokenAt comma '','' 7,
                             tokenAt tok_identifier ''d'' 9, tokenAt r_paren '')'' 10],
                  eofText = [], eofLoc = 11\<rparr>,
             PreviousLoc = 2, Diags = [], SourceMgr = sampleSourceMgr\<rparr>"
  let ?Q1 = "\<lparr>Tok = tokenAt tok_identifier ''c'' 6,
             L = \<lparr>pending = [tokenAt comma '','' 7,
                             tokenAt tok_identifier ''d'' 9, tokenAt r_paren '')'' 10],
                  eofText = [], eofLoc = 11\<rparr>,
             PreviousLoc = 4, Diags = [], SourceMgr = sampleSourceMgr\<rparr>"
  have eight: "(8::nat) = Suc (Suc 0 + 6)" by simp
  have sep: "comma = comma \<or> comma = semi" by simp
  have nr0: "getKind (Tok ?P) \<noteq> r_paren" by (simp add: sample_defs)
  have after: "parseList_after (Suc 0) (Suc (Suc 0 + 6)) False r_paren comma False identifierElement
                 False ?P = Some (False, ?Q)"
    by (simp add: parseList_body_def leadingSeparators.simps identifierElement_def
          sample_defs cursor_defs eval_nat_numeral)
  have ls: "leadingSeparators comma ?Q = Inr ?Q"
    by (subst leadingSeparators.simps) (simp add: tokenAt_def)
  have cb: "identifierElement ?Q = (False, ?Q1)"
    by (simp add: identifierElement_def tokenAt_def lex_def eofToken_def cursor_defs)
  have nr: "getKind (Tok ?Q1) \<noteq> r_paren" by (simp add: tokenAt_def)
  have ne: "\<not> (getKind (Tok ?Q1) = eof \<and> getText (Tok ?Q1) = '')'')" by (simp add: tokenAt_def)
  have nsep: "getKind (Tok ?Q1) \<noteq> comma" by (simp add: tokenAt_def)
  have fuel: "remaining ?Q1 \<le> 6" by (simp add: remaining_def upcoming_def tokenAt_def)
  have moved: "getLoc (Tok ?Q1) \<noteq> getLoc (Tok ?Q)" by (simp add: tokenAt_def)
  have t: "consuming identifierElement \<and> isCloser r_paren \<and> remaining ?P \<le> Suc 0 + 6"
    by (simp add: consuming_identifierElement isCloser_def sample_defs remaining_def upcoming_def)
  have ev: "parseList 8 False r_paren 0 comma False (caller_diag 0) identifierElement ?P =
     Some (Inr (True, Some 10,
     \<lparr>Tok = \<lparr>getKind = eof, getText = [], getLoc = 11\<rparr>,
      L = \<lparr>pending = [], eofText = [], eofLoc = 11\<rparr>,
      PreviousLoc = 10,
      Diags = [\<lparr>diagLoc = 6, diagID = expected_separator, diagArg = '','',
                fixIts = [fixItInsert 5 '','']\<rparr>],
      SourceMgr = sampleSourceMgr\<rparr>))"
    by (simp add: parseList_def parseList_body_def leadingSeparators.simps identifierElement_def
          sample_defs cursor_defs separatorText_def parseMatchingToken_def parseToken_def
          eval_nat_numeral)
  note T = parseList_missing_separator[where callback=identifierElement,
             OF sep nr0 after ls cb nr ne nsep fuel, of 0 "caller_diag 0"]
  from T have "\<exists>step. parseList_body 6 False r_paren comma False identifierElement False ?Q =
                  Some (Inr step) \<and>
           Diags (stepParser step) =
             Diags ?Q1 @ [\<lparr>diagLoc = getLoc (Tok ?Q1), diagID = expected_separator,
                          diagArg = separatorText comma,
                          fixIts = [fixItInsert (getLocForEndOfToken (SourceMgr ?Q1) (PreviousLoc ?Q1))
                                      (separatorText comma)]\<rparr>] \<and>
           stepInvalid step \<and>
           (getLoc (Tok ?Q1) \<noteq> getLoc (Tok ?Q) \<longrightarrow>
              (\<exists>P'. step = Continue True P' \<and> Tok P' = Tok ?Q1 \<and> L P' = L ?Q1))"
    by blast
  with moved have c1: "\<exists>step. parseList_body 6 False r_paren comma False identifierElement False ?Q =
                  Some (Inr step) \<and>
          Diags (stepParser step) =
            [\<lparr>diagLoc = 6, diagID = expected_separator, diagArg = '','',
              fixIts = [fixItInsert 5 '','']\<rparr>] \<and>
          stepInvalid step \<and>
          (\<exists>P'. step = Continue True P' \<and> Tok P' = tokenAt tok_identifier ''c'' 6)"
    by (auto simp: tokenAt_def separatorText_def sampleSourceMgr_def)
  from T t have c2: "\<exists>RightLoc P'.
      parseList 8 False r_paren 0 comma False (caller_diag 0) identifierElement ?P =
        Some (Inr (True, RightLoc, P'))"
    unfolding eight by blast
  from c1 c2 ev show ?thesis by blast
qed

text \<open>
  Claim C6 as stated fails where it says that the loop continues rather than aborting. On
  \<^verbatim>\<open>}\<close> followed by eof, in a list closed by \<^verbatim>\<open>)\<close>, the callback consumes nothing; the
  pass diagnoses the missing separator, the forced skip reaches eof, the pass leaves the
  loop and \<^verbatim>\<open>parseList\<close> returns failure without a value for \<^verbatim>\<open>RightLoc\<close>.
\<close>

theorem parseList_missing_separator_counterexample:
  "parseList_body 1 False r_paren comma False identifierElement False
     (parserOn [tokenAt r_brace ''}'' 1] [] 2) =
   Some (Inr (Return True None
     \<lparr>Tok = \<lparr>getKind = eof, getText = [], getLoc = 2\<rparr>,
      L = \<lparr>pending = [], eofText = [], eofLoc = 2\<rparr>,
      PreviousLoc = 1,
      Diags = [\<lparr>diagLoc = 1, diagID = expected_separator, diagArg = '','',
                fixIts = [fixItInsert 1 '','']\<rparr>],
      SourceMgr = sampleSourceMgr\<rparr>)) \<and>
   parseList 2 False r_paren 0 comma False (caller_diag 0) identifierElement
     (parserOn [tokenAt r_brace ''}'' 1] [] 2) =
   Some (Inr (True, None,
     \<lparr>Tok = \<lparr>getKind = eof, getText = [], getLoc = 2\<rparr>,
      L = \<lparr>pending = [], eofText = [], eofLoc = 2\<rparr>,
      PreviousLoc = 1,
      Diags = [\<lparr>diagLoc = 1, diagID = expected_separator, diagArg = '','',
                fixIts = [fixItInsert 1 '','']\<rparr>],
      SourceMgr = sampleSourceMgr\<rparr>))"
  by (simp add: parseList_def parseList_body_def leadingSeparators.simps identifierElement_def
        sample_defs cursor_defs skipUntil.simps skipSingle.simps separatorText_def
        eval_nat_numeral)

section \<open>The claims about the tokenizer entry point\<close>

text \<open>
  Claim C7. \<^verbatim>\<open>getStringPartTokens\<close> appends to its output one group of tokens for each
  segment of the string literal, in order, and the group of every literal segment is one
  synthesized string-literal token, the token \<open>literalSegmentToken\<close> of the specification:
  its range starts one character before the segment and is one longer when the segment is
  the first, is one longer when the segment is the last, and has both extensions when the
  segment is both. (Lengths are \<^verbatim>\<open>unsigned\<close> and the increments are those of that type.)
  When every segment is literal the call returns with any fuel.
\<close>

theorem getStringPartTokens_literal_segments:
  assumes "getKind StrTok = string_literal"
  shows "(\<forall>R. getStringPartTokens n SplitDefault StrTok SM BufID Toks = Some (Inr R) \<longrightarrow>
            (\<exists>parts. length parts = length (getStringLiteralSegments SM StrTok) \<and>
               R = Toks @ concat parts \<and>
               (\<forall>i < length (getStringLiteralSegments SM StrTok).
                  segKind (getStringLiteralSegments SM StrTok ! i) = Literal \<longrightarrow>
                  parts ! i = [literalSegmentToken SM (getStringLiteralSegments SM StrTok) i]))) \<and>
         ((\<forall>i < length (getStringLiteralSegments SM StrTok).
              segKind (getStringLiteralSegments SM StrTok ! i) = Literal) \<longrightarrow>
          getStringPartTokens n SplitDefault StrTok SM BufID Toks =
            Some (Inr (Toks @ map (literalSegmentToken SM (getStringLiteralSegments SM StrTok))
                               [0..<length (getStringLiteralSegments SM StrTok)]))) \<and>
         (\<forall>Segments i. i < length Segments \<longrightarrow> segKind (Segments ! i) = Literal \<longrightarrow>
            literalSegmentToken SM Segments i =
              setToken string_literal
                (if i = 0 then segLoc (Segments ! i) - 1 else segLoc (Segments ! i))
                (StringRef SM
                   (if i = 0 then segLoc (Segments ! i) - 1 else segLoc (Segments ! i))
                   (segLength (Segments ! i) + (if i = 0 then 1 else 0) +
                    (if i = length Segments - 1 then 1 else 0))))"
proof (intro conjI allI impI)
  fix R assume "getStringPartTokens n SplitDefault StrTok SM BufID Toks = Some (Inr R)"
  from getStringPartTokens_parts[OF assms this]
  show "\<exists>parts. length parts = length (getStringLiteralSegments SM StrTok) \<and>
               R = Toks @ concat parts \<and>
               (\<forall>i < length (getStringLiteralSegments SM StrTok).
                  segKind (getStringLiteralSegments SM StrTok ! i) = Literal \<longrightarrow>
                  parts ! i = [literalSegmentToken SM (getStringLiteralSegments SM StrTok) i])"
    by blast
next
  assume "\<forall>i < length (getStringLiteralSegments SM StrTok).
              segKind (getStringLiteralSegments SM StrTok ! i) = Literal"
  from getStringPartTokens_literals[OF assms this]
  show "getStringPartTokens n SplitDefault StrTok SM BufID Toks =
            Some (Inr (Toks @ map (literalSegmentToken SM (getStringLiteralSegments SM StrTok))
                               [0..<length (getStringLiteralSegments SM StrTok)]))" .
next
  fix Segments :: "StringSegment list" and i
  assume i: "i < length Segments" and "segKind (Segments ! i) = Literal"
  from i have li: "(i = length Segments - 1) = (Suc i = length Segments)" by auto
  show "literalSegmentToken SM Segments i =
              setToken string_literal
                (if i = 0 then segLoc (Segments ! i) - 1 else segLoc (Segments ! i))
                (StringRef SM
                   (if i = 0 then segLoc (Segments ! i) - 1 else segLoc (Segments ! i))
                   (segLength (Segments ! i) + (if i = 0 then 1 else 0) +
                    (if i = length Segments - 1 then 1 else 0)))"
    unfolding li by (simp add: literalSegmentToken_def setToken_def Let_def)
qed

theorem getStringPartTokens_literal_segments_witness:
  "getStringPartTokens 3 True sampleStringToken sampleBufferMgr 0 [] =
     Some (Inr [\<lparr>getKind = string_literal, getText = [CHR 0x22, CHR ''x''], getLoc = 10\<rparr>,
                \<lparr>getKind = tok_identifier, getText = ''y'', getLoc = 14\<rparr>,
                \<lparr>getKind = string_literal, getText = [CHR ''z'', CHR 0x22], getLoc = 16\<rparr>]) \<and>
   literalSegmentToken sampleBufferMgr [\<lparr>segKind = Literal, segLoc = 11, segLength = 6\<rparr>] 0 =
     setToken string_literal 10 (StringRef sampleBufferMgr 10 8)"
proof -
  have f3: "(3::nat) = Suc (Suc (Suc 0))" by simp
  have a: "getStringPartTokens 3 True sampleStringToken sampleBufferMgr 0 [] =
     Some (Inr [\<lparr>getKind = string_literal, getText = [CHR 0x22, CHR ''x''], getLoc = 10\<rparr>,
                \<lparr>getKind = tok_identifier, getText = ''y'', getLoc = 14\<rparr>,
                \<lparr>getKind = string_literal, getText = [CHR ''z'', CHR 0x22], getLoc = 16\<rparr>])"
    unfolding f3 by (simp add: tok_eval upt_rec)
  have k: "getKind sampleStringToken = string_literal" by (simp add: sampleStringToken_def)
  from getStringPartTokens_literal_segments[OF k, of 3 True sampleBufferMgr 0 "[]"]
  have "\<forall>Segments i. i < length Segments \<longrightarrow> segKind (Segments ! i) = Literal \<longrightarrow>
            literalSegmentToken sampleBufferMgr Segments i =
              setToken string_literal
                (if i = 0 then segLoc (Segments ! i) - 1 else segLoc (Segments ! i))
                (StringRef sampleBufferMgr
                   (if i = 0 then segLoc (Segments ! i) - 1 else segLoc (Segments ! i))
                   (segLength (Segments ! i) + (if i = 0 then 1 else 0) +
                    (if i = length Segments - 1 then 1 else 0)))"
    by blast
  from this[rule_format, of 0 "[\<lparr>segKind = Literal, segLoc = 11, segLength = 6\<rparr>]"]
  have "literalSegmentToken sampleBufferMgr [\<lparr>segKind = Literal, segLoc = 11, segLength = 6\<rparr>] 0 =
     setToken string_literal 10 (StringRef sampleBufferMgr 10 8)"
    by simp
  with a show ?thesis by simp
qed

text \<open>
  Claim C8. A call of \<^verbatim>\<open>tokenize\<close> with both offsets zero is the call with the end offset
  set to the size of the buffer (as the \<^verbatim>\<open>unsigned\<close> parameter holds it): it tokenizes
  the whole buffer. The sequence that any call returns holds no eof token. When
  interpolated strings are not split and the fuel covers the tokens of the lexer, the
  call returns the tokens that the lexer produces before its eof token.
\<close>

theorem tokenize_whole_buffer_excludes_eof:
  "tokenize n SplitDefault SM BufferID 0 0 KeepComments Split =
     tokenize n SplitDefault SM BufferID 0 (of_nat (getBufferSize SM BufferID)) KeepComments Split \<and>
   (\<forall>Tokens. tokenize n SplitDefault SM BufferID Offset EndOffset KeepComments Split =
                Some (Inr Tokens) \<longrightarrow> noEof Tokens) \<and>
   (length (pending (newLexer SM BufferID False KeepComments
              (Some (Offset, if Offset = 0 \<and> EndOffset = 0
                             then of_nat (getBufferSize SM BufferID) else EndOffset)))) + 2 \<le> n \<longrightarrow>
    tokenize n SplitDefault SM BufferID Offset EndOffset KeepComments False =
      Some (Inr (takeWhile (\<lambda>t. getKind t \<noteq> eof)
        (pending (newLexer SM BufferID False KeepComments
           (Some (Offset, if Offset = 0 \<and> EndOffset = 0
                          then of_nat (getBufferSize SM BufferID) else EndOffset)))))))"
proof (intro conjI allI impI)
  show "tokenize n SplitDefault SM BufferID 0 0 KeepComments Split =
     tokenize n SplitDefault SM BufferID 0 (of_nat (getBufferSize SM BufferID)) KeepComments Split"
    by (rule tokenize_whole_buffer)
next
  fix Tokens
  assume "tokenize n SplitDefault SM BufferID Offset EndOffset KeepComments Split =
                Some (Inr Tokens)"
  then show "noEof Tokens" by (rule tokenize_noEof)
next
  assume "length (pending (newLexer SM BufferID False KeepComments
              (Some (Offset, if Offset = 0 \<and> EndOffset = 0
                             then of_nat (getBufferSize SM BufferID) else EndOffset)))) + 2 \<le> n"
  then show "tokenize n SplitDefault SM BufferID Offset EndOffset KeepComments False =
      Some (Inr (takeWhile (\<lambda>t. getKind t \<noteq> eof)
        (pending (newLexer SM BufferID False KeepComments
           (Some (Offset, if Offset = 0 \<and> EndOffset = 0
                          then of_nat (getBufferSize SM BufferID) else EndOffset))))))"
    by (rule tokenize_plain)
qed

theorem tokenize_whole_buffer_excludes_eof_witness:
  "tokenize 3 True sampleBufferMgr 0 0 0 False False = Some (Inr [sampleStringToken]) \<and>
   tokenize 3 True sampleBufferMgr 0 0 8 False False = Some (Inr [sampleStringToken]) \<and>
   noEof [sampleStringToken] \<and>
   tokenize 5 True sampleBufferMgr 0 0 0 False True =
     Some (Inr [\<lparr>getKind = string_literal, getText = [CHR 0x22, CHR ''x''], getLoc = 10\<rparr>,
                \<lparr>getKind = tok_identifier, getText = ''y'', getLoc = 14\<rparr>,
                \<lparr>getKind = string_literal, getText = [CHR ''z'', CHR 0x22], getLoc = 16\<rparr>])"
proof -
  have f3: "(3::nat) = Suc (Suc (Suc 0))" and f5: "(5::nat) = Suc (Suc (Suc (Suc (Suc 0))))"
    by simp_all
  have a: "tokenize 3 True sampleBufferMgr 0 0 8 False False = Some (Inr [sampleStringToken])"
    unfolding f3 by (simp add: tok_eval)
  have s: "of_nat (getBufferSize sampleBufferMgr 0) = (8 :: unsigned)"
    by (simp add: sampleBufferMgr_def)
  from tokenize_whole_buffer_excludes_eof[of 3 True sampleBufferMgr 0 False False 0 8] a s
  have b: "tokenize 3 True sampleBufferMgr 0 0 0 False False = Some (Inr [sampleStringToken])"
    and c: "noEof [sampleStringToken]"
    by auto
  have d: "tokenize 5 True sampleBufferMgr 0 0 0 False True =
     Some (Inr [\<lparr>getKind = string_literal, getText = [CHR 0x22, CHR ''x''], getLoc = 10\<rparr>,
                \<lparr>getKind = tok_identifier, getText = ''y'', getLoc = 14\<rparr>,
                \<lparr>getKind = string_literal, getText = [CHR ''z'', CHR 0x22], getLoc = 16\<rparr>])"
    unfolding f5 by (simp add: tok_eval upt_rec)
  from a b c d show ?thesis by simp
qed

section \<open>The claims about the persistent state and delayed parsing\<close>

text \<open>
  Claim C10. Constructing a parser on a persistent parser state takes the saved position
  out of that state, whether or not the position is used: after the construction the
  state is the one given but for its saved position, which is not valid any more; this
  holds of the state of every parser, also of the one that a parser without a persistent
  state makes for itself. When the saved position is valid and lies in the buffer of the
  parser, the parser starts there: its lexer is put at the beginning of the saved token,
  which becomes the current token, and the previous location is the saved one. Otherwise
  the position is dropped and the parser stays unprimed, with the sentinel token and a
  new lexer.
\<close>

theorem newParser_takes_saved_position:
  "snd (newParser SM Ds BufferID SIL (Some State)) = State\<lparr>MarkedPos := noParserPos\<rparr> \<and>
   \<not> posIsValid (MarkedPos (snd (newParser SM Ds BufferID SIL PersistentState))) \<and>
   (posIsValid (MarkedPos State) \<and>
    FindBufferContainingLoc SM (posLoc (MarkedPos State)) = sint BufferID \<longrightarrow>
      fst (newParser SM Ds BufferID SIL (Some State)) =
        (unprimed SM Ds BufferID SIL)
          \<lparr>Tok := fst (lex (getStateForBeginningOfTokenLoc SM (newLexer SM BufferID SIL False None)
                              (posLoc (MarkedPos State)))),
           L := snd (lex (getStateForBeginningOfTokenLoc SM (newLexer SM BufferID SIL False None)
                            (posLoc (MarkedPos State)))),
           PreviousLoc := posPrevLoc (MarkedPos State)\<rparr>) \<and>
   (\<not> (posIsValid (MarkedPos State) \<and>
       FindBufferContainingLoc SM (posLoc (MarkedPos State)) = sint BufferID) \<longrightarrow>
      fst (newParser SM Ds BufferID SIL (Some State)) = unprimed SM Ds BufferID SIL)"
  by (cases PersistentState)
     (auto simp: newParser_def takeParserPosition_def Let_def posIsValid_def isValid_def
        noParserPos_def newPersistentParserState_def restoreParserPosition_def
        getParserPosition_def unprimed_def split: prod.splits)

theorem newParser_takes_saved_position_witness:
  "newParser sampleSourceMgr [] 0 False
     (Some \<lparr>MarkedPos = \<lparr>posLoc = 7, posPrevLoc = 5\<rparr>, DelayedDeclLoc = None\<rparr>) =
     ((unprimed sampleSourceMgr [] 0 False)
        \<lparr>Tok := \<lparr>getKind = eof, getText = [], getLoc = 1\<rparr>, PreviousLoc := 5\<rparr>,
      \<lparr>MarkedPos = noParserPos, DelayedDeclLoc = None\<rparr>) \<and>
   newParser sampleSourceMgr [] 3 False
     (Some \<lparr>MarkedPos = \<lparr>posLoc = 7, posPrevLoc = 5\<rparr>, DelayedDeclLoc = None\<rparr>) =
     (unprimed sampleSourceMgr [] 3 False, \<lparr>MarkedPos = noParserPos, DelayedDeclLoc = None\<rparr>)"
proof -
  let ?S = "\<lparr>MarkedPos = \<lparr>posLoc = 7, posPrevLoc = 5\<rparr>, DelayedDeclLoc = None\<rparr>"
  have v: "posIsValid (MarkedPos ?S)" by (simp add: posIsValid_def isValid_def)
  have m: "FindBufferContainingLoc sampleSourceMgr (posLoc (MarkedPos ?S)) = sint (0 :: unsigned)"
    by (simp add: sampleSourceMgr_def)
  have n: "\<not> (posIsValid (MarkedPos ?S) \<and>
       FindBufferContainingLoc sampleSourceMgr (posLoc (MarkedPos ?S)) = sint (3 :: unsigned))"
    by (simp add: sampleSourceMgr_def)
  from newParser_takes_saved_position[of sampleSourceMgr "[]" 0 False ?S] v m
       newParser_takes_saved_position[of sampleSourceMgr "[]" 3 False ?S] n
  show ?thesis
    by (simp add: prod_eq_iff sampleSourceMgr_def lex_def eofToken_def unprimed_def)
qed

text \<open>
  Claim C2, on the code. Without a completion-callback factory, \<^verbatim>\<open>parseFunctionBody\<close>
  leaves its callback pointer null, runs the delayed production and then calls
  \<^verbatim>\<open>doneParsing\<close> through the null pointer: the call ends in a fault, and so does
  \<^verbatim>\<open>performDelayedParsing\<close> on any list of declarations that starts with a function whose
  body is unparsed. The top-level path asserts that there is a factory. With a factory,
  both paths create a callback object that did not exist before, install it, run the
  delayed production and then call \<^verbatim>\<open>doneParsing\<close> on that object, once.
\<close>

theorem parseFunctionBody_done_parsing:
  "parseFunctionBody SM Ds False FDLoc (Some Unparsed) W = Inl NullDereference \<and>
   performDelayedParsing SM Ds False (FuncDecl FDLoc (Some Unparsed) Nested # Decls) W =
     Inl NullDereference \<and>
   parseDelayedTopLevelDecl SM Ds False W =
     Inl (AssertionFailed ''delayed parsing of decls only makes sense for code completion'') \<and>
   parseFunctionBody SM Ds True FDLoc (Some Unparsed) W =
     Inr (W\<lparr>Trace := Trace W @ [createCodeCompletionCallbacks (Created W),
                                 setCodeCompletionCallbacks (Created W),
                                 parseDeclFuncBodyDelayed FDLoc,
                                 doneParsing (Created W)],
            Created := Suc (Created W),
            ParserState := snd (newParser SM Ds (word_of_int (FindBufferContainingLoc SM FDLoc))
                                  False (Some (ParserState W)))\<rparr>) \<and>
   parseDelayedTopLevelDecl SM Ds True (W\<lparr>ParserState := (ParserState W)\<lparr>DelayedDeclLoc := Some DelayedLoc\<rparr>\<rparr>) =
     Inr (W\<lparr>Trace := Trace W @ [createCodeCompletionCallbacks (Created W),
                                 setCodeCompletionCallbacks (Created W),
                                 parseTopLevelCodeDeclDelayed,
                                 doneParsing (Created W)],
            Created := Suc (Created W),
            ParserState := snd (newParser SM Ds (word_of_int (FindBufferContainingLoc SM DelayedLoc))
                                  False (Some ((ParserState W)\<lparr>DelayedDeclLoc := Some DelayedLoc\<rparr>)))\<rparr>)"
  by (simp add: parseFunctionBody_def performDelayedParsing_def walkToDeclPre_def
        parseDelayedTopLevelDecl_def Let_def split: prod.splits)

theorem parseFunctionBody_done_parsing_witness:
  "performDelayedParsing sampleSourceMgr [] False [FuncDecl 1 (Some Unparsed) []]
     \<lparr>Trace = [], Created = 0, ParserState = newPersistentParserState\<rparr> = Inl NullDereference"
  using parseFunctionBody_done_parsing[of sampleSourceMgr "[]" 1
          "\<lparr>Trace = [], Created = 0, ParserState = newPersistentParserState\<rparr>" "[]" "[]"]
  by simp


end
